theory Spec2Isabelle
  imports Main "HOL-Library.Sublist"
begin

section \<open>The process supervisor of pkg/app/appserver/proc.go\<close>

text \<open>
  \<^verbatim>\<open>Proc\<close> supervises one child process. Its methods are called from several
  goroutines, and \<^verbatim>\<open>Start\<close> launches a goroutine of its own, so the model is an
  interleaving semantics: every method is cut at its synchronisation points (atomic
  loads, the mutex, the channel, the once, the calls to the operating system and to the
  collaborators) into program points, a thread is the program point it stands at, and a
  schedule chooses which thread takes its next step. A step that would block in Go is not
  enabled. The answers of the operating system (whether the spawn, the signal or the close
  fails, and when and how the child exits) are part of the schedule.
\<close>

subsection \<open>Errors\<close>

text \<open>
  \<^verbatim>\<open>errProcAlreadyRunning\<close> and \<^verbatim>\<open>errProcNotStarted\<close> are the two errors of
  the package; every other error comes from the operating system and is known by its
  message only. A Go \<^verbatim>\<open>error\<close> that may be \<^verbatim>\<open>nil\<close> is an \<open>error option\<close>.
  What the operating system answers to a call is the message of its error, or \<open>None\<close>
  when the call succeeds: it has no way to answer with one of the two errors of the package.
\<close>

datatype error = errProcAlreadyRunning | errProcNotStarted | OSError string

type_synonym os_answer = "string option"

definition os_error :: "os_answer \<Rightarrow> error option" where
  "os_error r = map_option OSError r"

fun Error :: "error \<Rightarrow> string" where
  "Error errProcAlreadyRunning = ''process already running''"
| "Error errProcNotStarted = ''process is not started''"
| "Error (OSError msg) = msg"

fun HasPrefix :: "string \<Rightarrow> string \<Rightarrow> bool" where
  "HasPrefix s [] = True"
| "HasPrefix [] (x # xs) = False"
| "HasPrefix (c # s) (x # xs) = (c = x \<and> HasPrefix s xs)"

text \<open>\<^verbatim>\<open>strings.Contains(s, substr)\<close>.\<close>

fun Contains :: "string \<Rightarrow> string \<Rightarrow> bool" where
  "Contains [] substr = (substr = [])"
| "Contains (c # s) substr = (HasPrefix (c # s) substr \<or> Contains s substr)"

subsection \<open>The struct\<close>

text \<open>
  \<^verbatim>\<open>connCh\<close> is made by \<^verbatim>\<open>make(chan struct{}, 1)\<close>: a channel of unit values is
  the number of values it buffers, its capacity and whether it has been closed.
  \<^verbatim>\<open>sync.Once\<close> has run no function yet, is running one (other callers of
  \<^verbatim>\<open>Do\<close> wait until it has returned), or is done.
\<close>

record chan =
  ch_len :: nat
  ch_cap :: nat
  ch_closed :: bool

datatype once = OnceFresh | OnceRunning | OnceDone

type_synonym net_Conn = nat

text \<open>
  Modelled from the spec: \<^verbatim>\<open>RPCIngressGateway\<close> and \<^verbatim>\<open>NewRPCGateway\<close> are not
  in the source given; the gateway is an opaque object that owns a connection manager
  \<^verbatim>\<open>cm\<close> and a listener manager \<^verbatim>\<open>lm\<close>, whose \<^verbatim>\<open>CloseAll\<close> the supervisor
  calls.
\<close>

datatype RPCIngressGateway = NewRPCGateway

text \<open>
  The fields of \<^verbatim>\<open>Proc\<close> that the methods read and write. \<open>cmd_Process\<close> says
  whether \<^verbatim>\<open>p.cmd.Process\<close> is not nil, \<open>waitMx\<close> whether the mutex is locked.
  The configuration, the loggers and the discovery client never change and are left out.
\<close>

record Proc =
  cmd_Process :: bool
  isRunning :: int
  waitMx :: bool
  waitErr :: "error option"
  rpcGW :: "RPCIngressGateway option"
  conn :: "net_Conn option"
  connCh :: chan
  connOnce :: once

definition NewProc :: Proc where
  "NewProc = \<lparr> cmd_Process = False, isRunning = 0, waitMx = False, waitErr = None,
     rpcGW = None, conn = None,
     connCh = \<lparr> ch_len = 0, ch_cap = 1, ch_closed = False \<rparr>,
     connOnce = OnceFresh \<rparr>"

subsection \<open>The world around the struct\<close>

text \<open>
  The child process behind \<^verbatim>\<open>p.cmd\<close> has not been spawned, is alive, or has exited
  with the error that \<^verbatim>\<open>cmd.Wait\<close> reports (\<open>None\<close> for a clean exit). Every
  effect on the mutex, the channel, the operating system and the collaborators is written
  to a trace, with the number of the thread that caused it. A run-time panic of Go stops
  the program; the state remembers which one it was.
\<close>

datatype child = NotSpawned | Alive | Exited "error option"

datatype event =
    EvLock | EvUnlock
  | EvCmdStart "error option"
  | EvGo
  | EvSignal "error option"
  | EvKill
  | EvRecv bool
  | EvServe
  | EvDiscStart
  | EvCmdWait "error option"
  | EvConnClose "error option"
  | EvLogWarn
  | EvCMCloseAll
  | EvLMCloseAll
  | EvDiscStop
  | EvSend
  | EvClose

datatype fault = SendOnClosedChannel | CloseOfClosedChannel | UnlockOfUnlockedMutex
  | NilDereference

record state =
  proc :: Proc
  child :: child
  trace :: "(nat \<times> event) list"
  fault :: "fault option"

subsection \<open>Threads\<close>

text \<open>
  A thread is the program point of the call it executes. \<open>Start_\<close>, \<open>Stop_\<close>,
  \<open>Wait_\<close>, \<open>InjectConn_\<close> and \<open>IsRunning_\<close> are the points of the methods of
  these names; \<open>Go_\<close> are the points of the goroutine that \<^verbatim>\<open>Start\<close> launches
  (lines 153 to 180), \<^verbatim>\<open>awaitConn\<close> included. A point \<open>_ret\<close> is a call that has
  returned, with its result.
\<close>

datatype thread =
    Start_cas | Start_Lock | Start_cmd_Start | Start_Unlock error | Start_go
  | Start_ret "error option"
  | Go_awaitConn | Go_Kill | Go_Kill_Unlock | Go_ret_killed
  | Go_serve | Go_disc_Start | Go_cmd_Wait | Go_conn_Close | Go_cm_CloseAll
  | Go_lm_CloseAll | Go_Unlock | Go_disc_Stop | Go_ret
  | Stop_load | Stop_Signal | Stop_Lock | Stop_Unlock | Stop_once | Stop_close
  | Stop_once_done | Stop_ret "error option"
  | Wait_load | Wait_Lock | Wait_read | Wait_Unlock "error option"
  | Wait_ret "error option"
  | InjectConn_once net_Conn | InjectConn_store net_Conn | InjectConn_send
  | InjectConn_close | InjectConn_once_done | InjectConn_ret bool
  | IsRunning_load | IsRunning_ret bool
  | Panicked

type_synonym result = "(state \<times> thread \<times> thread list) option"

definition goto :: "state \<Rightarrow> thread \<Rightarrow> result" where
  "goto s t = Some (s, t, [])"

definition emit :: "nat \<Rightarrow> event \<Rightarrow> state \<Rightarrow> state" where
  "emit i ev s = s\<lparr> trace := trace s @ [(i, ev)] \<rparr>"

definition panic :: "fault \<Rightarrow> state \<Rightarrow> result" where
  "panic f s = Some (s\<lparr> fault := Some f \<rparr>, Panicked, [])"

text \<open>\<^verbatim>\<open>p.waitMx.Lock()\<close> blocks while the mutex is locked.\<close>

definition Lock :: "nat \<Rightarrow> state \<Rightarrow> thread \<Rightarrow> result" where
  "Lock i s t =
     (if waitMx (proc s) then None
      else goto (emit i EvLock (s\<lparr> proc := (proc s)\<lparr> waitMx := True \<rparr> \<rparr>)) t)"

text \<open>\<^verbatim>\<open>p.waitMx.Unlock()\<close>; unlocking an unlocked mutex is a fatal error in Go.\<close>

definition Unlock :: "nat \<Rightarrow> state \<Rightarrow> thread \<Rightarrow> result" where
  "Unlock i s t =
     (if waitMx (proc s)
      then goto (emit i EvUnlock (s\<lparr> proc := (proc s)\<lparr> waitMx := False \<rparr> \<rparr>)) t
      else panic UnlockOfUnlockedMutex s)"

text \<open>
  Entering \<^verbatim>\<open>p.connOnce.Do(f)\<close>: the first caller goes on to \<open>body\<close>, a caller
  that finds the once done skips to \<open>skip\<close>, and a caller that arrives while the body
  runs waits.
\<close>

definition Do :: "state \<Rightarrow> thread \<Rightarrow> thread \<Rightarrow> result" where
  "Do s body skip =
     (case connOnce (proc s) of
        OnceDone \<Rightarrow> goto s skip
      | OnceRunning \<Rightarrow> None
      | OnceFresh \<Rightarrow> goto (s\<lparr> proc := (proc s)\<lparr> connOnce := OnceRunning \<rparr> \<rparr>) body)"

definition Do_return :: "state \<Rightarrow> thread \<Rightarrow> result" where
  "Do_return s t = goto (s\<lparr> proc := (proc s)\<lparr> connOnce := OnceDone \<rparr> \<rparr>) t"

text \<open>\<^verbatim>\<open>close(p.connCh)\<close>; closing a closed channel panics.\<close>

definition close_connCh :: "nat \<Rightarrow> state \<Rightarrow> thread \<Rightarrow> result" where
  "close_connCh i s t =
     (if ch_closed (connCh (proc s)) then panic CloseOfClosedChannel s
      else goto (emit i EvClose
             (s\<lparr> proc := (proc s)\<lparr> connCh := (connCh (proc s))\<lparr> ch_closed := True \<rparr> \<rparr> \<rparr>)) t)"

text \<open>
  \<^verbatim>\<open>p.connCh <- struct{}{}\<close>; sending on a closed channel panics, and sending on a
  full one blocks.
\<close>

definition send_connCh :: "nat \<Rightarrow> state \<Rightarrow> thread \<Rightarrow> result" where
  "send_connCh i s t =
     (if ch_closed (connCh (proc s)) then panic SendOnClosedChannel s
      else if ch_len (connCh (proc s)) < ch_cap (connCh (proc s))
      then goto (emit i EvSend
             (s\<lparr> proc := (proc s)\<lparr> connCh :=
                   (connCh (proc s))\<lparr> ch_len := ch_len (connCh (proc s)) + 1 \<rparr> \<rparr> \<rparr>)) t
      else None)"

text \<open>
  \<^verbatim>\<open>_, ok := <-p.connCh\<close>: a buffered value is received with \<open>ok\<close> true, also
  when the channel has been closed since; an empty closed channel gives \<open>ok\<close> false; an
  empty open channel blocks.
\<close>

definition recv_connCh :: "nat \<Rightarrow> state \<Rightarrow> thread \<Rightarrow> thread \<Rightarrow> result" where
  "recv_connCh i s t_ok t_closed =
     (if 0 < ch_len (connCh (proc s))
      then goto (emit i (EvRecv True)
             (s\<lparr> proc := (proc s)\<lparr> connCh :=
                   (connCh (proc s))\<lparr> ch_len := ch_len (connCh (proc s)) - 1 \<rparr> \<rparr> \<rparr>)) t_ok
      else if ch_closed (connCh (proc s)) then goto (emit i (EvRecv False) s) t_closed
      else None)"

text \<open>
  The warning of line 172: a close error is unexpected unless its message contains
  \<^verbatim>\<open>use of closed network connection\<close>.
\<close>

definition close_unexpected :: "error option \<Rightarrow> bool" where
  "close_unexpected r =
     (case r of None \<Rightarrow> False
      | Some err \<Rightarrow> \<not> Contains (Error err) ''use of closed network connection'')"

subsection \<open>One step of a thread\<close>

text \<open>
  \<open>tstep i r s t\<close> is the next step of thread number \<open>i\<close>, standing at \<open>t\<close>, in
  state \<open>s\<close>: the new state, the new program point and the goroutines launched, or
  \<open>None\<close> when the step blocks. \<open>r\<close> is what the operating system answers when the
  step asks it (\<^verbatim>\<open>cmd.Start\<close>, \<^verbatim>\<open>Process.Signal\<close>, \<^verbatim>\<open>conn.Close\<close>).
\<close>

fun tstep :: "nat \<Rightarrow> os_answer \<Rightarrow> state \<Rightarrow> thread \<Rightarrow> result" where
  \<comment> \<open>\<^verbatim>\<open>Start\<close>, lines 138 to 183\<close>
  "tstep i r s Start_cas =
     (if isRunning (proc s) = 0
      then goto (s\<lparr> proc := (proc s)\<lparr> isRunning := 1 \<rparr> \<rparr>) Start_Lock
      else goto s (Start_ret (Some errProcAlreadyRunning)))"
| "tstep i r s Start_Lock = Lock i s Start_cmd_Start"
| "tstep i r s Start_cmd_Start =
     (case os_error r of
        Some err \<Rightarrow> goto (emit i (EvCmdStart (Some err)) s) (Start_Unlock err)
      | None \<Rightarrow>
          goto (emit i (EvCmdStart None)
            (s\<lparr> proc := (proc s)\<lparr> cmd_Process := True \<rparr>, child := Alive \<rparr>)) Start_go)"
| "tstep i r s (Start_Unlock err) = Unlock i s (Start_ret (Some err))"
| "tstep i r s Start_go = Some (emit i EvGo s, Start_ret None, [Go_awaitConn])"
  \<comment> \<open>the goroutine of \<^verbatim>\<open>Start\<close>, lines 153 to 180, and \<^verbatim>\<open>awaitConn\<close>, lines 101 to 135\<close>
| "tstep i r s Go_awaitConn = recv_connCh i s Go_serve Go_Kill"
| "tstep i r s Go_Kill =
     goto (emit i EvKill
       (if child s = Alive
        then s\<lparr> child := Exited (Some (OSError ''signal: killed'')) \<rparr> else s)) Go_Kill_Unlock"
| "tstep i r s Go_Kill_Unlock = Unlock i s Go_ret_killed"
| "tstep i r s Go_serve =
     (if rpcGW (proc s) = None then panic NilDereference s
      else goto (emit i EvServe s) Go_disc_Start)"
| "tstep i r s Go_disc_Start = goto (emit i EvDiscStart s) Go_cmd_Wait"
| "tstep i r s Go_cmd_Wait =
     (case child s of
        Exited e \<Rightarrow>
          goto (emit i (EvCmdWait e) (s\<lparr> proc := (proc s)\<lparr> waitErr := e \<rparr> \<rparr>)) Go_conn_Close
      | _ \<Rightarrow> None)"
| "tstep i r s Go_conn_Close =
     (if conn (proc s) = None then panic NilDereference s
      else if close_unexpected (os_error r)
      then goto (emit i EvLogWarn (emit i (EvConnClose (os_error r)) s)) Go_cm_CloseAll
      else goto (emit i (EvConnClose (os_error r)) s) Go_cm_CloseAll)"
| "tstep i r s Go_cm_CloseAll =
     (if rpcGW (proc s) = None then panic NilDereference s
      else goto (emit i EvCMCloseAll s) Go_lm_CloseAll)"
| "tstep i r s Go_lm_CloseAll =
     (if rpcGW (proc s) = None then panic NilDereference s
      else goto (emit i EvLMCloseAll s) Go_Unlock)"
| "tstep i r s Go_Unlock = Unlock i s Go_disc_Stop"
| "tstep i r s Go_disc_Stop = goto (emit i EvDiscStop s) Go_ret"
  \<comment> \<open>\<^verbatim>\<open>Stop\<close>, lines 186 to 206\<close>
| "tstep i r s Stop_load =
     (if isRunning (proc s) = 0 then goto s (Stop_ret (Some errProcNotStarted))
      else goto s Stop_Signal)"
| "tstep i r s Stop_Signal =
     (if cmd_Process (proc s)
      then (case os_error r of
              Some err \<Rightarrow> goto (emit i (EvSignal (Some err)) s) (Stop_ret (Some err))
            | None \<Rightarrow> goto (emit i (EvSignal None) s) Stop_Lock)
      else goto s Stop_Lock)"
| "tstep i r s Stop_Lock = Lock i s Stop_Unlock"
| "tstep i r s Stop_Unlock = Unlock i s Stop_once"
| "tstep i r s Stop_once = Do s Stop_close (Stop_ret None)"
| "tstep i r s Stop_close = close_connCh i s Stop_once_done"
| "tstep i r s Stop_once_done = Do_return s (Stop_ret None)"
  \<comment> \<open>\<^verbatim>\<open>Wait\<close>, lines 209 to 219\<close>
| "tstep i r s Wait_load =
     (if isRunning (proc s) \<noteq> 1 then goto s (Wait_ret (Some errProcNotStarted))
      else goto s Wait_Lock)"
| "tstep i r s Wait_Lock = Lock i s Wait_read"
| "tstep i r s Wait_read = goto s (Wait_Unlock (waitErr (proc s)))"
| "tstep i r s (Wait_Unlock e) = Unlock i s (Wait_ret e)"
  \<comment> \<open>\<^verbatim>\<open>InjectConn\<close>, lines 85 to 99\<close>
| "tstep i r s (InjectConn_once c) = Do s (InjectConn_store c) (InjectConn_ret False)"
| "tstep i r s (InjectConn_store c) =
     goto (s\<lparr> proc := (proc s)\<lparr> conn := Some c, rpcGW := Some NewRPCGateway \<rparr> \<rparr>)
       InjectConn_send"
| "tstep i r s InjectConn_send = send_connCh i s InjectConn_close"
| "tstep i r s InjectConn_close = close_connCh i s InjectConn_once_done"
| "tstep i r s InjectConn_once_done = Do_return s (InjectConn_ret True)"
  \<comment> \<open>\<^verbatim>\<open>IsRunning\<close>, lines 222 to 224\<close>
| "tstep i r s IsRunning_load = goto s (IsRunning_ret (isRunning (proc s) = 1))"
  \<comment> \<open>a call that has returned takes no step\<close>
| "tstep i r s (Start_ret e) = None"
| "tstep i r s Go_ret_killed = None"
| "tstep i r s Go_ret = None"
| "tstep i r s (Stop_ret e) = None"
| "tstep i r s (Wait_ret e) = None"
| "tstep i r s (InjectConn_ret b) = None"
| "tstep i r s (IsRunning_ret b) = None"
| "tstep i r s Panicked = None"

subsection \<open>Schedules\<close>

text \<open>
  A configuration is the state and the threads. A label \<open>Run i r\<close> lets thread \<open>i\<close>
  take its next step, with \<open>r\<close> the answer of the operating system; \<open>ChildExit e\<close>
  is the child process exiting by itself with \<open>e\<close>. After a panic nothing runs. A
  schedule is a list of labels; a label that is not enabled is skipped.
\<close>

type_synonym config = "state \<times> thread list"

datatype label = Run nat os_answer | ChildExit os_answer

fun step :: "label \<Rightarrow> config \<Rightarrow> config option" where
  "step (ChildExit e) (s, ts) =
     (if fault s = None \<and> child s = Alive then Some (s\<lparr> child := Exited (os_error e) \<rparr>, ts)
      else None)"
| "step (Run i r) (s, ts) =
     (if fault s = None \<and> i < length ts
      then (case tstep i r s (ts ! i) of
              None \<Rightarrow> None
            | Some (s', t', new) \<Rightarrow> Some (s', ts[i := t'] @ new))
      else None)"

fun exec :: "label list \<Rightarrow> config \<Rightarrow> config" where
  "exec [] c = c"
| "exec (l # ls) c = exec ls (case step l c of None \<Rightarrow> c | Some c' \<Rightarrow> c')"

text \<open>A fresh supervisor, as \<^verbatim>\<open>NewProc\<close> returns it, with the calls to be made on it.\<close>

definition init :: "thread list \<Rightarrow> config" where
  "init ts = (\<lparr> proc = NewProc, child = NotSpawned, trace = [], fault = None \<rparr>, ts)"

subsection \<open>Calls and scenarios\<close>

text \<open>A call that has not taken its first step stands at the entry of its method.\<close>

fun is_call :: "thread \<Rightarrow> bool" where
  "is_call Start_cas = True"
| "is_call Stop_load = True"
| "is_call Wait_load = True"
| "is_call (InjectConn_once c) = True"
| "is_call IsRunning_load = True"
| "is_call _ = False"

text \<open>
  \<open>started ts\<close>: one call of \<^verbatim>\<open>Start\<close> on a fresh supervisor has run alone and
  returned nil (the spawn succeeded, the goroutine is thread 1), and the calls \<open>ts\<close>
  are made afterwards. \<open>spawn_failed msg ts\<close>: the same, but the spawn failed with
  message \<open>msg\<close>.
\<close>

definition started :: "thread list \<Rightarrow> config" where
  "started ts =
     (case exec [Run 0 None, Run 0 None, Run 0 None, Run 0 None] (init [Start_cas]) of
        (s, ts0) \<Rightarrow> (s, ts0 @ ts))"

definition spawn_failed :: "string \<Rightarrow> thread list \<Rightarrow> config" where
  "spawn_failed msg ts =
     (case exec [Run 0 None, Run 0 None, Run 0 (Some msg), Run 0 None] (init [Start_cas]) of
        (s, ts0) \<Rightarrow> (s, ts0 @ ts))"

subsection \<open>What a thread has written to the trace\<close>

definition events_of :: "nat \<Rightarrow> state \<Rightarrow> event list" where
  "events_of i s = map snd (filter (\<lambda>p. fst p = i) (trace s))"

text \<open>
  The goroutine of \<^verbatim>\<open>Start\<close>, read off lines 153 to 180: what it has done when it
  stands at a program point, where \<open>e\<close> is what \<^verbatim>\<open>cmd.Wait\<close> returned and \<open>r\<close>
  what \<^verbatim>\<open>conn.Close\<close> returned.
\<close>

definition serving :: "error option \<Rightarrow> error option \<Rightarrow> event list" where
  "serving e r =
     [EvRecv True, EvServe, EvDiscStart, EvCmdWait e, EvConnClose r]
     @ (if close_unexpected r then [EvLogWarn] else [])
     @ [EvCMCloseAll, EvLMCloseAll, EvUnlock, EvDiscStop]"

fun Go_history :: "error option \<Rightarrow> error option \<Rightarrow> thread \<Rightarrow> event list" where
  "Go_history e r Go_awaitConn = []"
| "Go_history e r Go_Kill = [EvRecv False]"
| "Go_history e r Go_Kill_Unlock = [EvRecv False, EvKill]"
| "Go_history e r Go_ret_killed = [EvRecv False, EvKill, EvUnlock]"
| "Go_history e r Go_serve = [EvRecv True]"
| "Go_history e r Go_disc_Start = [EvRecv True, EvServe]"
| "Go_history e r Go_cmd_Wait = [EvRecv True, EvServe, EvDiscStart]"
| "Go_history e r Go_conn_Close = [EvRecv True, EvServe, EvDiscStart, EvCmdWait e]"
| "Go_history e r Go_cm_CloseAll =
     [EvRecv True, EvServe, EvDiscStart, EvCmdWait e, EvConnClose r]
     @ (if close_unexpected r then [EvLogWarn] else [])"
| "Go_history e r Go_lm_CloseAll =
     [EvRecv True, EvServe, EvDiscStart, EvCmdWait e, EvConnClose r]
     @ (if close_unexpected r then [EvLogWarn] else []) @ [EvCMCloseAll]"
| "Go_history e r Go_Unlock =
     [EvRecv True, EvServe, EvDiscStart, EvCmdWait e, EvConnClose r]
     @ (if close_unexpected r then [EvLogWarn] else []) @ [EvCMCloseAll, EvLMCloseAll]"
| "Go_history e r Go_disc_Stop =
     [EvRecv True, EvServe, EvDiscStart, EvCmdWait e, EvConnClose r]
     @ (if close_unexpected r then [EvLogWarn] else [])
     @ [EvCMCloseAll, EvLMCloseAll, EvUnlock]"
| "Go_history e r Go_ret = serving e r"
| "Go_history e r _ = []"

subsection \<open>The invariant of a started supervisor\<close>

text \<open>
  After \<^verbatim>\<open>Start\<close> has returned nil the goroutine holds the mutex until its
  \<^verbatim>\<open>Unlock\<close> (\<open>pre_Unlock\<close>), and \<^verbatim>\<open>waitErr\<close> is nil until \<^verbatim>\<open>cmd.Wait\<close>
  has returned (\<open>pre_Wait\<close>).
\<close>

fun pre_Unlock :: "thread \<Rightarrow> bool" where
  "pre_Unlock Go_awaitConn = True"
| "pre_Unlock Go_serve = True"
| "pre_Unlock Go_disc_Start = True"
| "pre_Unlock Go_cmd_Wait = True"
| "pre_Unlock Go_conn_Close = True"
| "pre_Unlock Go_cm_CloseAll = True"
| "pre_Unlock Go_lm_CloseAll = True"
| "pre_Unlock Go_Unlock = True"
| "pre_Unlock _ = False"

fun post_Unlock :: "thread \<Rightarrow> bool" where
  "post_Unlock Go_disc_Stop = True"
| "post_Unlock Go_ret = True"
| "post_Unlock _ = False"

fun pre_Wait :: "thread \<Rightarrow> bool" where
  "pre_Wait Go_awaitConn = True"
| "pre_Wait Go_serve = True"
| "pre_Wait Go_disc_Start = True"
| "pre_Wait Go_cmd_Wait = True"
| "pre_Wait _ = False"

definition Go_inv :: "state \<Rightarrow> thread \<Rightarrow> bool" where
  "Go_inv s G =
     ((pre_Unlock G \<or> post_Unlock G) \<and> isRunning (proc s) = 1 \<and> cmd_Process (proc s)
      \<and> child s \<noteq> NotSpawned
      \<and> (pre_Unlock G \<longrightarrow> waitMx (proc s))
      \<and> (G = Go_awaitConn \<and> ch_closed (connCh (proc s)) \<longrightarrow> 0 < ch_len (connCh (proc s)))
      \<and> (G \<noteq> Go_awaitConn \<or> 0 < ch_len (connCh (proc s)) \<longrightarrow>
           conn (proc s) \<noteq> None \<and> rpcGW (proc s) \<noteq> None)
      \<and> (pre_Wait G \<longrightarrow> waitErr (proc s) = None)
      \<and> (\<not> pre_Wait G \<longrightarrow> child s = Exited (waitErr (proc s)))
      \<and> (\<exists>r. events_of 1 s = Go_history (waitErr (proc s)) r G))"

text \<open>
  Where a caller can stand, given where the goroutine \<open>G\<close> stands: past the
  \<^verbatim>\<open>Lock\<close> of \<^verbatim>\<open>Stop\<close> or \<^verbatim>\<open>Wait\<close> only when the goroutine has unlocked, and
  never inside \<^verbatim>\<open>Start\<close> past the compare-and-swap.
\<close>

fun caller_shape :: "thread \<Rightarrow> thread \<Rightarrow> bool" where
  "caller_shape G Start_cas = True"
| "caller_shape G (Start_ret r) = True"
| "caller_shape G Stop_load = True"
| "caller_shape G Stop_Signal = True"
| "caller_shape G Stop_Lock = True"
| "caller_shape G Stop_Unlock = post_Unlock G"
| "caller_shape G Stop_once = post_Unlock G"
| "caller_shape G Stop_close = post_Unlock G"
| "caller_shape G Stop_once_done = post_Unlock G"
| "caller_shape G (Stop_ret r) = True"
| "caller_shape G Wait_load = True"
| "caller_shape G Wait_Lock = True"
| "caller_shape G Wait_read = post_Unlock G"
| "caller_shape G (Wait_Unlock r) = post_Unlock G"
| "caller_shape G (Wait_ret r) = post_Unlock G"
| "caller_shape G (InjectConn_once c) = True"
| "caller_shape G (InjectConn_store c) = True"
| "caller_shape G InjectConn_send = True"
| "caller_shape G InjectConn_close = True"
| "caller_shape G InjectConn_once_done = True"
| "caller_shape G (InjectConn_ret b) = True"
| "caller_shape G IsRunning_load = True"
| "caller_shape G (IsRunning_ret b) = True"
| "caller_shape G Panicked = True"
| "caller_shape G _ = False"

definition caller_inv :: "state \<Rightarrow> thread \<Rightarrow> thread \<Rightarrow> bool" where
  "caller_inv s G t =
     (caller_shape G t
      \<and> (\<forall>r. t = Wait_Unlock r \<or> t = Wait_ret r \<longrightarrow> r = waitErr (proc s))
      \<and> (t = InjectConn_send \<longrightarrow> conn (proc s) \<noteq> None \<and> rpcGW (proc s) \<noteq> None)
      \<and> (t = InjectConn_close \<and> G = Go_awaitConn \<longrightarrow> 0 < ch_len (connCh (proc s))))"

definition started_inv :: "config \<Rightarrow> bool" where
  "started_inv c =
     (case c of (s, ts) \<Rightarrow>
        1 < length ts \<and> Go_inv s (ts ! 1)
        \<and> (\<forall>j < length ts. j \<noteq> 1 \<longrightarrow> caller_inv s (ts ! 1) (ts ! j)))"

subsection \<open>A started supervisor whose child never connects\<close>

text \<open>Calls other than \<^verbatim>\<open>InjectConn\<close>.\<close>

fun no_InjectConn :: "thread \<Rightarrow> bool" where
  "no_InjectConn (InjectConn_once c) = False"
| "no_InjectConn t = is_call t"

text \<open>
  Where the threads stand as long as the goroutine waits in \<^verbatim>\<open>awaitConn\<close> and holds
  the mutex: no caller is past a \<^verbatim>\<open>Lock\<close>, and \<^verbatim>\<open>Stop\<close> has returned only with
  the error of a failed signal.
\<close>

fun awaiting_ok :: "thread \<Rightarrow> bool" where
  "awaiting_ok Start_cas = True"
| "awaiting_ok (Start_ret r) = True"
| "awaiting_ok Go_awaitConn = True"
| "awaiting_ok Stop_load = True"
| "awaiting_ok Stop_Signal = True"
| "awaiting_ok Stop_Lock = True"
| "awaiting_ok (Stop_ret r) = (case r of Some (OSError msg) \<Rightarrow> True | _ \<Rightarrow> False)"
| "awaiting_ok Wait_load = True"
| "awaiting_ok Wait_Lock = True"
| "awaiting_ok IsRunning_load = True"
| "awaiting_ok (IsRunning_ret b) = True"
| "awaiting_ok _ = False"

fun quiet :: "event \<Rightarrow> bool" where
  "quiet EvLock = True"
| "quiet (EvCmdStart r) = True"
| "quiet EvGo = True"
| "quiet (EvSignal r) = True"
| "quiet _ = False"

definition awaiting :: "config \<Rightarrow> bool" where
  "awaiting c =
     (case c of (s, ts) \<Rightarrow>
        proc s = NewProc\<lparr> cmd_Process := True, isRunning := 1, waitMx := True \<rparr>
        \<and> fault s = None \<and> child s \<noteq> NotSpawned \<and> list_all (\<lambda>p. quiet (snd p)) (trace s)
        \<and> 1 < length ts \<and> ts ! 1 = Go_awaitConn \<and> list_all awaiting_ok ts)"

subsection \<open>The invariant of the once and the channel\<close>

definition cnt :: "('a \<Rightarrow> bool) \<Rightarrow> 'a list \<Rightarrow> nat" where
  "cnt P xs = length (filter P xs)"

text \<open>How often the channel has been sent to and closed, by the trace.\<close>

definition sends :: "state \<Rightarrow> nat" where
  "sends s = cnt (\<lambda>p. snd p = EvSend) (trace s)"

definition closes :: "state \<Rightarrow> nat" where
  "closes s = cnt (\<lambda>p. snd p = EvClose) (trace s)"

fun no_send_after_close :: "event list \<Rightarrow> bool" where
  "no_send_after_close [] = True"
| "no_send_after_close (ev # evs) =
     ((ev = EvClose \<longrightarrow> EvSend \<notin> set evs) \<and> no_send_after_close evs)"

definition order_ok :: "state \<Rightarrow> bool" where
  "order_ok s = no_send_after_close (map snd (trace s))"

definition chan_fault :: "state \<Rightarrow> bool" where
  "chan_fault s = (fault s = Some SendOnClosedChannel \<or> fault s = Some CloseOfClosedChannel)"

text \<open>
  A thread is inside the function that it passed to \<^verbatim>\<open>p.connOnce.Do\<close> (\<open>in_Do\<close>);
  inside it, the channel is still to be closed (\<open>before_close\<close>) or still to be sent to
  (\<open>before_send\<close>). A call of \<^verbatim>\<open>InjectConn\<close> has won the once (\<open>InjectConn_won\<close>),
  has stored its connection (\<open>after_store\<close>), has sent (\<open>after_send\<close>), has closed
  (\<open>after_close\<close>).
\<close>

fun in_Do :: "thread \<Rightarrow> bool" where
  "in_Do (InjectConn_store c) = True"
| "in_Do InjectConn_send = True"
| "in_Do InjectConn_close = True"
| "in_Do InjectConn_once_done = True"
| "in_Do Stop_close = True"
| "in_Do Stop_once_done = True"
| "in_Do _ = False"

fun before_close :: "thread \<Rightarrow> bool" where
  "before_close (InjectConn_store c) = True"
| "before_close InjectConn_send = True"
| "before_close InjectConn_close = True"
| "before_close Stop_close = True"
| "before_close _ = False"

fun before_send :: "thread \<Rightarrow> bool" where
  "before_send (InjectConn_store c) = True"
| "before_send InjectConn_send = True"
| "before_send _ = False"

fun InjectConn_won :: "thread \<Rightarrow> bool" where
  "InjectConn_won (InjectConn_store c) = True"
| "InjectConn_won InjectConn_send = True"
| "InjectConn_won InjectConn_close = True"
| "InjectConn_won InjectConn_once_done = True"
| "InjectConn_won (InjectConn_ret b) = b"
| "InjectConn_won _ = False"

fun after_store :: "thread \<Rightarrow> bool" where
  "after_store InjectConn_send = True"
| "after_store InjectConn_close = True"
| "after_store InjectConn_once_done = True"
| "after_store (InjectConn_ret b) = b"
| "after_store _ = False"

fun after_send :: "thread \<Rightarrow> bool" where
  "after_send InjectConn_close = True"
| "after_send InjectConn_once_done = True"
| "after_send (InjectConn_ret b) = b"
| "after_send _ = False"

fun after_close :: "thread \<Rightarrow> bool" where
  "after_close InjectConn_once_done = True"
| "after_close (InjectConn_ret b) = b"
| "after_close Stop_once_done = True"
| "after_close _ = False"

fun is_Stop :: "thread \<Rightarrow> bool" where
  "is_Stop Stop_load = True"
| "is_Stop Stop_Signal = True"
| "is_Stop Stop_Lock = True"
| "is_Stop Stop_Unlock = True"
| "is_Stop Stop_once = True"
| "is_Stop Stop_close = True"
| "is_Stop Stop_once_done = True"
| "is_Stop (Stop_ret r) = True"
| "is_Stop _ = False"

definition once_global :: "state \<Rightarrow> bool" where
  "once_global s =
     (\<not> chan_fault s \<and> ch_cap (connCh (proc s)) = 1
      \<and> (connOnce (proc s) = OnceFresh \<longrightarrow>
           \<not> ch_closed (connCh (proc s)) \<and> ch_len (connCh (proc s)) = 0 \<and> sends s = 0)
      \<and> sends s \<le> 1
      \<and> closes s = (if ch_closed (connCh (proc s)) then 1 else 0)
      \<and> order_ok s)"

definition once_local :: "state \<Rightarrow> thread \<Rightarrow> bool" where
  "once_local s t =
     ((in_Do t \<longrightarrow> connOnce (proc s) = OnceRunning)
      \<and> (InjectConn_won t \<longrightarrow> connOnce (proc s) \<noteq> OnceFresh)
      \<and> (t = InjectConn_ret True \<or> t = InjectConn_ret False \<longrightarrow>
           connOnce (proc s) = OnceDone)
      \<and> (before_close t \<longrightarrow> \<not> ch_closed (connCh (proc s)))
      \<and> (before_send t \<longrightarrow> ch_len (connCh (proc s)) = 0 \<and> sends s = 0)
      \<and> (after_send t \<longrightarrow> sends s = 1)
      \<and> (after_close t \<longrightarrow> ch_closed (connCh (proc s))))"

text \<open>
  What a call of \<^verbatim>\<open>InjectConn(c)\<close> has become: once it has stored its connection, the
  struct holds \<open>c\<close> and a gateway.
\<close>

fun inj_rel :: "state \<Rightarrow> thread \<Rightarrow> thread \<Rightarrow> bool" where
  "inj_rel s (InjectConn_once c) t =
     (t = InjectConn_once c \<or> t = InjectConn_store c \<or> t = InjectConn_ret False
      \<or> (after_store t \<and> conn (proc s) = Some c \<and> rpcGW (proc s) = Some NewRPCGateway))"
| "inj_rel s call t = True"

definition once_inv :: "thread list \<Rightarrow> config \<Rightarrow> bool" where
  "once_inv ts0 c =
     (case c of (s, ts) \<Rightarrow>
        once_global s \<and> length ts0 \<le> length ts
        \<and> cnt in_Do ts = (if connOnce (proc s) = OnceRunning then 1 else 0)
        \<and> cnt InjectConn_won ts \<le> (if connOnce (proc s) = OnceFresh then 0 else 1)
        \<and> (\<forall>j < length ts. once_local s (ts ! j))
        \<and> (\<forall>j < length ts. is_call (ts ! j) \<longrightarrow> j < length ts0 \<and> ts0 ! j = ts ! j)
        \<and> (\<forall>j < length ts0. inj_rel s (ts0 ! j) (ts ! j))
        \<and> (Stop_load \<notin> set ts0 \<longrightarrow> (\<forall>j < length ts. \<not> is_Stop (ts ! j)))
        \<and> (Stop_load \<notin> set ts0 \<and> connOnce (proc s) \<noteq> OnceFresh \<longrightarrow>
             (\<exists>j < length ts0. \<exists>c. ts0 ! j = InjectConn_once c \<and> InjectConn_won (ts ! j))))"

subsection \<open>The invariant of the running flag\<close>

text \<open>
  A call of \<^verbatim>\<open>Start\<close> has won the compare-and-swap (\<open>Start_won\<close>): it stands past
  it, or has returned nil or an error of the operating system. \<open>Start_begun\<close>: the call
  has taken its first step. \<open>Start_sane\<close>: the error that \<^verbatim>\<open>Start\<close> is about to
  return after a failed spawn is an error of the operating system, and \<^verbatim>\<open>Start\<close> never
  returns \<^verbatim>\<open>errProcNotStarted\<close>.
\<close>

fun Start_won :: "thread \<Rightarrow> bool" where
  "Start_won Start_Lock = True"
| "Start_won Start_cmd_Start = True"
| "Start_won (Start_Unlock e) = (case e of OSError msg \<Rightarrow> True | _ \<Rightarrow> False)"
| "Start_won Start_go = True"
| "Start_won (Start_ret r) =
     (case r of None \<Rightarrow> True | Some (OSError msg) \<Rightarrow> True | Some _ \<Rightarrow> False)"
| "Start_won _ = False"

fun Start_begun :: "thread \<Rightarrow> bool" where
  "Start_begun Start_Lock = True"
| "Start_begun Start_cmd_Start = True"
| "Start_begun (Start_Unlock e) = True"
| "Start_begun Start_go = True"
| "Start_begun (Start_ret r) = True"
| "Start_begun _ = False"

fun Start_sane :: "thread \<Rightarrow> bool" where
  "Start_sane (Start_Unlock e) = (case e of OSError msg \<Rightarrow> True | _ \<Rightarrow> False)"
| "Start_sane (Start_ret r) = (r \<noteq> Some errProcNotStarted)"
| "Start_sane _ = True"

definition cas_local :: "state \<Rightarrow> thread \<Rightarrow> bool" where
  "cas_local s t = (Start_sane t \<and> (Start_begun t \<longrightarrow> isRunning (proc s) \<noteq> 0))"

definition cas_inv :: "thread list \<Rightarrow> config \<Rightarrow> bool" where
  "cas_inv ts0 c =
     (case c of (s, ts) \<Rightarrow>
        (isRunning (proc s) = 0 \<or> isRunning (proc s) = 1) \<and> length ts0 \<le> length ts
        \<and> cnt Start_won ts \<le> (if isRunning (proc s) = 0 then 0 else 1)
        \<and> (\<forall>j < length ts. cas_local s (ts ! j))
        \<and> (\<forall>j < length ts. ts ! j = Start_cas \<longrightarrow> j < length ts0 \<and> ts0 ! j = Start_cas)
        \<and> (isRunning (proc s) \<noteq> 0 \<longrightarrow>
             (\<exists>j < length ts0. ts0 ! j = Start_cas \<and> (Start_won (ts ! j) \<or> ts ! j = Panicked))))"

subsection \<open>Who has used the once\<close>

text \<open>
  The once is used by the first call of \<^verbatim>\<open>InjectConn\<close> or by a call of \<^verbatim>\<open>Stop\<close>
  that got past the mutex, whichever enters \<^verbatim>\<open>Do\<close> first. While it is fresh no
  connection is stored; when it is done the channel is closed; and when a \<^verbatim>\<open>Stop\<close> has
  used it, no call of \<^verbatim>\<open>InjectConn\<close> has won or ever will, nothing has been sent and
  no connection is stored.
\<close>

definition once_used :: "thread list \<Rightarrow> config \<Rightarrow> bool" where
  "once_used ts0 c =
     (case c of (s, ts) \<Rightarrow>
        (connOnce (proc s) = OnceFresh \<longrightarrow> conn (proc s) = None \<and> rpcGW (proc s) = None)
        \<and> (connOnce (proc s) = OnceDone \<longrightarrow> ch_closed (connCh (proc s)))
        \<and> (connOnce (proc s) \<noteq> OnceFresh \<longrightarrow>
             (\<exists>j < length ts0. \<exists>c. ts0 ! j = InjectConn_once c \<and> InjectConn_won (ts ! j))
             \<or> (Stop_load \<in> set ts0 \<and> cnt InjectConn_won ts = 0 \<and> sends s = 0
                 \<and> conn (proc s) = None \<and> rpcGW (proc s) = None)))"

subsection \<open>Runs that have come to an end\<close>

text \<open>
  A configuration is quiescent when no label is enabled: something has panicked, or the
  child is not alive and every thread has returned or is blocked. Whether a thread can
  take a step depends neither on its index nor on the answer of the operating system, so
  the definition asks for thread 0 and the answer nil.
\<close>

definition quiescent :: "config \<Rightarrow> bool" where
  "quiescent c =
     (case c of (s, ts) \<Rightarrow>
        fault s \<noteq> None \<or> (child s \<noteq> Alive \<and> list_all (\<lambda>t. tstep 0 None s t = None) ts))"

subsection \<open>What the winner of the compare-and-swap does\<close>

text \<open>
  \<^verbatim>\<open>Start\<close>, read off lines 138 to 183: what a call has written to the trace when it
  stands at a program point. A call that lost the compare-and-swap has written nothing;
  the winner has locked the mutex, asked the operating system to spawn the child, and
  then either launched the goroutine and returned nil (the answer was nil) or unlocked
  and returned the answer (the answer was an error).
\<close>

fun Start_history :: "thread \<Rightarrow> event list option" where
  "Start_history Start_cas = Some []"
| "Start_history Start_Lock = Some []"
| "Start_history Start_cmd_Start = Some [EvLock]"
| "Start_history (Start_Unlock e) = Some [EvLock, EvCmdStart (Some e)]"
| "Start_history Start_go = Some [EvLock, EvCmdStart None]"
| "Start_history (Start_ret r) =
     (case r of
        None \<Rightarrow> Some [EvLock, EvCmdStart None, EvGo]
      | Some errProcAlreadyRunning \<Rightarrow> Some []
      | Some e \<Rightarrow> Some [EvLock, EvCmdStart (Some e), EvUnlock])"
| "Start_history _ = None"

fun spawned :: "thread \<Rightarrow> bool" where
  "spawned Start_go = True"
| "spawned (Start_ret r) = (r = None)"
| "spawned _ = False"

fun is_Go :: "thread \<Rightarrow> bool" where
  "is_Go Go_awaitConn = True"
| "is_Go Go_Kill = True"
| "is_Go Go_Kill_Unlock = True"
| "is_Go Go_ret_killed = True"
| "is_Go Go_serve = True"
| "is_Go Go_disc_Start = True"
| "is_Go Go_cmd_Wait = True"
| "is_Go Go_conn_Close = True"
| "is_Go Go_cm_CloseAll = True"
| "is_Go Go_lm_CloseAll = True"
| "is_Go Go_Unlock = True"
| "is_Go Go_disc_Stop = True"
| "is_Go Go_ret = True"
| "is_Go _ = False"

definition spawn_global :: "state \<Rightarrow> bool" where
  "spawn_global s =
     ((child s = NotSpawned) = (\<not> cmd_Process (proc s))
      \<and> (isRunning (proc s) = 0 \<longrightarrow> \<not> cmd_Process (proc s)))"

definition spawn_local :: "nat \<Rightarrow> state \<Rightarrow> thread \<Rightarrow> bool" where
  "spawn_local j s t =
     ((\<forall>h. Start_history t = Some h \<longrightarrow> events_of j s = h)
      \<and> (Start_won t \<and> \<not> spawned t \<longrightarrow> \<not> cmd_Process (proc s))
      \<and> (spawned t \<or> is_Go t \<longrightarrow> cmd_Process (proc s)))"

definition spawn_inv :: "config \<Rightarrow> bool" where
  "spawn_inv c =
     (case c of (s, ts) \<Rightarrow> spawn_global s \<and> (\<forall>j < length ts. spawn_local j s (ts ! j)))"

subsection \<open>Holding the mutex, and how far a run is from its end\<close>

text \<open>
  A caller stands between a \<^verbatim>\<open>p.waitMx.Lock()\<close> and the \<^verbatim>\<open>Unlock\<close> that follows
  it (\<open>holding\<close>); a thread is a call of \<^verbatim>\<open>Wait\<close> (\<open>is_Wait\<close>).
\<close>

fun holding :: "thread \<Rightarrow> bool" where
  "holding Stop_Unlock = True"
| "holding Wait_read = True"
| "holding (Wait_Unlock r) = True"
| "holding _ = False"

fun is_Wait :: "thread \<Rightarrow> bool" where
  "is_Wait Wait_load = True"
| "is_Wait Wait_Lock = True"
| "is_Wait Wait_read = True"
| "is_Wait (Wait_Unlock r) = True"
| "is_Wait (Wait_ret r) = True"
| "is_Wait _ = False"

text \<open>
  The mutex of a started supervisor: nothing has panicked, once the goroutine has
  unlocked the mutex it is locked exactly when one caller holds it, and a call of
  \<^verbatim>\<open>Wait\<close> stays one.
\<close>

definition mutex_inv :: "thread list \<Rightarrow> config \<Rightarrow> bool" where
  "mutex_inv ts0 c =
     (case c of (s, ts) \<Rightarrow>
        fault s = None \<and> length ts0 \<le> length ts
        \<and> (\<forall>j < length ts. ts ! j \<noteq> Panicked)
        \<and> (post_Unlock (ts ! 1) \<longrightarrow> cnt holding ts = (if waitMx (proc s) then 1 else 0))
        \<and> (\<forall>j < length ts0. ts0 ! j = Wait_load \<longrightarrow> is_Wait (ts ! j)))"

text \<open>
  How many steps a thread can still take, at most, counting those of the goroutine that
  \<^verbatim>\<open>Start\<close> launches and the exit of the child that it spawns.
\<close>

fun rank :: "thread \<Rightarrow> nat" where
  "rank Start_cas = 14"
| "rank Start_Lock = 13"
| "rank Start_cmd_Start = 12"
| "rank (Start_Unlock e) = 1"
| "rank Start_go = 10"
| "rank Go_awaitConn = 9"
| "rank Go_Kill = 2"
| "rank Go_Kill_Unlock = 1"
| "rank Go_serve = 8"
| "rank Go_disc_Start = 7"
| "rank Go_cmd_Wait = 6"
| "rank Go_conn_Close = 5"
| "rank Go_cm_CloseAll = 4"
| "rank Go_lm_CloseAll = 3"
| "rank Go_Unlock = 2"
| "rank Go_disc_Stop = 1"
| "rank Stop_load = 7"
| "rank Stop_Signal = 6"
| "rank Stop_Lock = 5"
| "rank Stop_Unlock = 4"
| "rank Stop_once = 3"
| "rank Stop_close = 2"
| "rank Stop_once_done = 1"
| "rank Wait_load = 4"
| "rank Wait_Lock = 3"
| "rank Wait_read = 2"
| "rank (Wait_Unlock e) = 1"
| "rank (InjectConn_once c) = 5"
| "rank (InjectConn_store c) = 4"
| "rank InjectConn_send = 3"
| "rank InjectConn_close = 2"
| "rank InjectConn_once_done = 1"
| "rank IsRunning_load = 1"
| "rank _ = 0"

definition steps_left :: "config \<Rightarrow> nat" where
  "steps_left c =
     (case c of (s, ts) \<Rightarrow> sum_list (map rank ts) + (if child s = Alive then 1 else 0))"

section \<open>Properties\<close>

lemmas prims = goto_def emit_def panic_def Lock_def Unlock_def Do_def Do_return_def
  close_connCh_def send_connCh_def recv_connCh_def os_error_def

lemma started_eq:
  "started ts =
     (\<lparr> proc = NewProc\<lparr> cmd_Process := True, isRunning := 1, waitMx := True \<rparr>, child = Alive,
        trace = [(0, EvLock), (0, EvCmdStart None), (0, EvGo)], fault = None \<rparr>,
      Start_ret None # Go_awaitConn # ts)"
  by (simp add: started_def init_def NewProc_def prims)

lemma spawn_failed_eq:
  "spawn_failed msg ts =
     (\<lparr> proc = NewProc\<lparr> isRunning := 1 \<rparr>, child = NotSpawned,
        trace = [(0, EvLock), (0, EvCmdStart (Some (OSError msg))), (0, EvUnlock)],
        fault = None \<rparr>,
      Start_ret (Some (OSError msg)) # ts)"
  by (simp add: spawn_failed_def init_def NewProc_def prims)

lemma events_of_emit [simp]:
  "events_of k (emit i ev s) = (if i = k then events_of k s @ [ev] else events_of k s)"
  by (simp add: events_of_def emit_def)

lemma events_of_upd [simp]:
  "events_of k (s\<lparr> proc := p \<rparr>) = events_of k s"
  "events_of k (s\<lparr> child := ch \<rparr>) = events_of k s"
  "events_of k (s\<lparr> fault := f \<rparr>) = events_of k s"
  by (simp_all add: events_of_def)

lemma emit_sel [simp]:
  "proc (emit i ev s) = proc s" "child (emit i ev s) = child s" "fault (emit i ev s) = fault s"
  by (simp_all add: emit_def)

lemmas prims' = goto_def panic_def Lock_def Unlock_def Do_def Do_return_def
  close_connCh_def send_connCh_def recv_connCh_def os_error_def


subsection \<open>The running flag\<close>

lemma tstep_isRunning:
  "tstep i r s t = Some (s', t', new) \<Longrightarrow>
     isRunning (proc s') = isRunning (proc s) \<or>
     (t = Start_cas \<and> isRunning (proc s) = 0 \<and> isRunning (proc s') = 1)"
  by (cases t) (auto simp: prims split: if_splits option.splits once.splits child.splits)

lemma step_isRunning:
  "step l c = Some c' \<Longrightarrow>
     isRunning (proc (fst c')) = isRunning (proc (fst c)) \<or>
     (isRunning (proc (fst c)) = 0 \<and> isRunning (proc (fst c')) = 1 \<and>
      (\<exists>i r. l = Run i r \<and> i < length (snd c) \<and> snd c ! i = Start_cas))"
proof (cases l)
  case (Run i r)
  obtain s ts where c: "c = (s, ts)" by (cases c)
  assume "step l c = Some c'"
  with Run c obtain s' t' new where
    t: "tstep i r s (ts ! i) = Some (s', t', new)" and c': "c' = (s', ts[i := t'] @ new)"
    and i: "i < length ts"
    by (auto split: if_splits option.splits)
  from tstep_isRunning [OF t] show ?thesis using Run c c' i by auto
next
  case (ChildExit e)
  assume "step l c = Some c'"
  with ChildExit show ?thesis by (cases c) (auto split: if_splits)
qed

lemma step_keeps_running:
  "step l c = Some c' \<Longrightarrow> isRunning (proc (fst c)) = 1 \<Longrightarrow> isRunning (proc (fst c')) = 1"
  using step_isRunning [of l c c'] by auto

lemma exec_keeps_running:
  "isRunning (proc (fst c)) = 1 \<Longrightarrow> isRunning (proc (fst (exec ls c))) = 1"
proof (induction ls arbitrary: c)
  case Nil
  then show ?case by simp
next
  case (Cons l ls)
  show ?case
  proof (cases "step l c")
    case None
    with Cons show ?thesis by simp
  next
    case (Some c')
    from Some Cons.prems have "isRunning (proc (fst c')) = 1" by (rule step_keeps_running)
    with Cons.IH Some show ?thesis by simp
  qed
qed

text \<open>
  C10. The running flag changes in one way only: the compare-and-swap of \<^verbatim>\<open>Start\<close>
  takes it from 0 to 1. No step of any thread, and no exit of the child, resets it. So
  from any configuration where the flag is 1, after every schedule (the child exiting and
  the goroutine cleaning up, or the spawn failing, included) the flag is still 1 and
  \<^verbatim>\<open>IsRunning\<close> returns true.
\<close>

theorem isRunning_never_reset:
  "(\<forall>l c c'. step l c = Some c' \<longrightarrow>
      isRunning (proc (fst c')) = isRunning (proc (fst c)) \<or>
      (isRunning (proc (fst c)) = 0 \<and> isRunning (proc (fst c')) = 1 \<and>
       (\<exists>i r. l = Run i r \<and> i < length (snd c) \<and> snd c ! i = Start_cas)))
   \<and> (\<forall>c ls i r. isRunning (proc (fst c)) = 1 \<longrightarrow>
        isRunning (proc (fst (exec ls c))) = 1 \<and>
        tstep i r (fst (exec ls c)) IsRunning_load =
          Some (fst (exec ls c), IsRunning_ret True, []))"
proof (intro conjI allI impI)
  fix l c c' assume "step l c = Some c'"
  then show "isRunning (proc (fst c')) = isRunning (proc (fst c)) \<or>
      (isRunning (proc (fst c)) = 0 \<and> isRunning (proc (fst c')) = 1 \<and>
       (\<exists>i r. l = Run i r \<and> i < length (snd c) \<and> snd c ! i = Start_cas))"
    by (rule step_isRunning)
next
  fix c :: config and ls assume "isRunning (proc (fst c)) = 1"
  then show "isRunning (proc (fst (exec ls c))) = 1" by (rule exec_keeps_running)
next
  fix c :: config and ls i r assume "isRunning (proc (fst c)) = 1"
  then have "isRunning (proc (fst (exec ls c))) = 1" by (rule exec_keeps_running)
  then show "tstep i r (fst (exec ls c)) IsRunning_load =
          Some (fst (exec ls c), IsRunning_ret True, [])"
    by (simp add: goto_def)
qed

text \<open>
  The theorem at work: the compare-and-swap of a first \<^verbatim>\<open>Start\<close> sets the flag; after
  a failed spawn, and after a whole run (connection injected, child exited, cleanup done,
  \<^verbatim>\<open>Wait\<close> returned), \<^verbatim>\<open>IsRunning\<close> still returns true.
\<close>

theorem isRunning_never_reset_witness:
  "step (Run 0 None) (init [Start_cas, IsRunning_load]) \<noteq> None
   \<and> isRunning (proc (fst (init [Start_cas, IsRunning_load]))) = 0
   \<and> isRunning (proc (fst (the (step (Run 0 None) (init [Start_cas, IsRunning_load]))))) = 1
   \<and> isRunning (proc (fst (spawn_failed ''no such file'' [IsRunning_load]))) = 1
   \<and> snd (exec [Run 1 None] (spawn_failed ''no such file'' [IsRunning_load])) ! 1
       = IsRunning_ret True
   \<and> isRunning (proc (fst (started [InjectConn_once 7, Wait_load, IsRunning_load]))) = 1
   \<and> snd (exec [Run 2 None, Run 2 None, Run 2 None, Run 2 None, Run 2 None,
                 Run 1 None, Run 1 None, Run 1 None, ChildExit None,
                 Run 1 None, Run 1 None, Run 1 None, Run 1 None, Run 1 None, Run 1 None,
                 Run 3 None, Run 3 None, Run 3 None, Run 3 None, Run 4 None]
            (started [InjectConn_once 7, Wait_load, IsRunning_load]))
       = [Start_ret None, Go_ret, InjectConn_ret True, Wait_ret None, IsRunning_ret True]"
proof -
  have a: "isRunning (proc (fst (spawn_failed ''no such file'' [IsRunning_load]))) = 1"
    by (simp add: spawn_failed_eq NewProc_def)
  have b: "isRunning (proc (fst (started [InjectConn_once 7, Wait_load, IsRunning_load]))) = 1"
    by (simp add: started_eq NewProc_def)
  note t = isRunning_never_reset [THEN conjunct2, rule_format]
  from t [OF a, of "[]" 1 None] t [OF b, of "[]" 1 None] a b
  show ?thesis
    by (simp add: spawn_failed_eq started_eq init_def NewProc_def prims)
qed

subsection \<open>Calls on a supervisor that was never started\<close>

text \<open>
  C5. While the running flag is 0 (by the theorem above it is 0 exactly as long as no
  \<^verbatim>\<open>Start\<close> has passed its compare-and-swap), the first step of \<^verbatim>\<open>Stop\<close> and the
  first step of \<^verbatim>\<open>Wait\<close> are enabled whatever the mutex, the channel and the other
  threads do, return \<^verbatim>\<open>errProcNotStarted\<close>, and leave the state as it was.
\<close>

theorem Stop_Wait_before_Start:
  assumes "isRunning (proc s) = 0"
  shows "tstep i r s Stop_load = Some (s, Stop_ret (Some errProcNotStarted), [])
       \<and> tstep i r s Wait_load = Some (s, Wait_ret (Some errProcNotStarted), [])
       \<and> (fault s = None \<and> i < length ts \<and> ts ! i = Stop_load \<longrightarrow>
            exec [Run i r] (s, ts) = (s, ts[i := Stop_ret (Some errProcNotStarted)]))
       \<and> (fault s = None \<and> i < length ts \<and> ts ! i = Wait_load \<longrightarrow>
            exec [Run i r] (s, ts) = (s, ts[i := Wait_ret (Some errProcNotStarted)]))"
  using assms by (simp add: goto_def)

theorem Stop_Wait_before_Start_witness:
  "isRunning (proc (fst (init [Stop_load, Wait_load]))) = 0
   \<and> exec [Run 0 None, Run 1 None] (init [Stop_load, Wait_load])
       = (fst (init [Stop_load, Wait_load]),
          [Stop_ret (Some errProcNotStarted), Wait_ret (Some errProcNotStarted)])"
proof -
  have h: "isRunning (proc (fst (init [Stop_load, Wait_load]))) = 0"
    by (simp add: init_def NewProc_def)
  from Stop_Wait_before_Start [OF h, of 0 None "[Stop_load, Wait_load]"]
       Stop_Wait_before_Start [OF h, of 1 None "[Stop_ret (Some errProcNotStarted), Wait_load]"]
  show ?thesis using h by (simp add: init_def)
qed

subsection \<open>A signal that cannot be delivered\<close>

text \<open>
  C8. When \<^verbatim>\<open>p.cmd.Process\<close> is not nil and \<^verbatim>\<open>Signal\<close> fails with message
  \<open>msg\<close>, \<^verbatim>\<open>Stop\<close> returns that error in the same step: the fields of the struct
  are unchanged (only the trace records the attempt), the mutex is not touched, also when
  it is locked, and the channel is not closed. A whole call of \<^verbatim>\<open>Stop\<close> on a started
  supervisor is then two steps, neither of which can block.
\<close>

theorem Stop_Signal_error:
  assumes "cmd_Process (proc s)"
  shows "tstep i (Some msg) s Stop_Signal
           = Some (s\<lparr> trace := trace s @ [(i, EvSignal (Some (OSError msg)))] \<rparr>,
                   Stop_ret (Some (OSError msg)), [])
       \<and> (isRunning (proc s) \<noteq> 0 \<and> fault s = None \<and> i < length ts \<and> ts ! i = Stop_load \<longrightarrow>
            exec [Run i r, Run i (Some msg)] (s, ts)
              = (s\<lparr> trace := trace s @ [(i, EvSignal (Some (OSError msg)))] \<rparr>,
                 ts[i := Stop_ret (Some (OSError msg))]))"
  using assms by (simp add: prims)

theorem Stop_Signal_error_witness:
  "cmd_Process (proc (fst (started [Stop_load])))
   \<and> waitMx (proc (fst (started [Stop_load])))
   \<and> exec [Run 2 None, Run 2 (Some ''os: process already finished'')] (started [Stop_load])
       = ((fst (started [Stop_load]))\<lparr> trace := trace (fst (started [Stop_load])) @
             [(2, EvSignal (Some (OSError ''os: process already finished'')))] \<rparr>,
          [Start_ret None, Go_awaitConn,
           Stop_ret (Some (OSError ''os: process already finished''))])"
proof -
  have h: "cmd_Process (proc (fst (started [Stop_load])))"
    by (simp add: started_eq)
  from Stop_Signal_error [OF h, of 2 "''os: process already finished''"
      "[Start_ret None, Go_awaitConn, Stop_load]" None]
  show ?thesis by (simp add: started_eq NewProc_def)
qed

subsection \<open>A spawn that fails\<close>

text \<open>
  C4. \<^verbatim>\<open>Start\<close> runs alone and the spawn fails with message \<open>msg\<close>; then
  \<^verbatim>\<open>IsRunning\<close> and \<^verbatim>\<open>Wait\<close> are called. \<^verbatim>\<open>Start\<close> returns the error of the
  operating system. Its error path (lines 146 to 149) undoes the \<^verbatim>\<open>Lock\<close> of line 143
  but not the flag set by the compare-and-swap of line 139, and stores the error nowhere.
  So \<^verbatim>\<open>IsRunning\<close>, which is documented to check whether the application is running,
  returns true although no child has ever been spawned; and \<^verbatim>\<open>Wait\<close> passes its
  guard against a supervisor that is not started, finds the mutex free, does not block,
  and returns \<^verbatim>\<open>waitErr\<close>, which is nil. The claim (\<^verbatim>\<open>IsRunning\<close> false,
  \<^verbatim>\<open>Wait\<close> returning \<^verbatim>\<open>errProcNotStarted\<close> or the spawn error) does not hold of
  the code.
\<close>

theorem Start_spawn_failure:
  "snd (exec [Run 0 r0, Run 0 r1, Run 0 (Some msg), Run 0 r2,
              Run 1 r3, Run 2 r4, Run 2 r5, Run 2 r6, Run 2 r7]
         (init [Start_cas, IsRunning_load, Wait_load]))
     = [Start_ret (Some (OSError msg)), IsRunning_ret True, Wait_ret None]"
  by (simp add: init_def NewProc_def prims)

text \<open>
  The same run for a binary that does not exist: \<^verbatim>\<open>IsRunning\<close> does not return
  false, and \<^verbatim>\<open>Wait\<close> returns neither \<^verbatim>\<open>errProcNotStarted\<close> nor the spawn error.
\<close>

theorem Start_spawn_failure_counterexample:
  "snd (exec [Run 0 None, Run 0 None, Run 0 (Some ''no such file or directory''), Run 0 None,
              Run 1 None, Run 2 None, Run 2 None, Run 2 None, Run 2 None]
         (init [Start_cas, IsRunning_load, Wait_load])) ! 0
     = Start_ret (Some (OSError ''no such file or directory''))
   \<and> snd (exec [Run 0 None, Run 0 None, Run 0 (Some ''no such file or directory''), Run 0 None,
              Run 1 None, Run 2 None, Run 2 None, Run 2 None, Run 2 None]
         (init [Start_cas, IsRunning_load, Wait_load])) ! 1
     \<noteq> IsRunning_ret False
   \<and> snd (exec [Run 0 None, Run 0 None, Run 0 (Some ''no such file or directory''), Run 0 None,
              Run 1 None, Run 2 None, Run 2 None, Run 2 None, Run 2 None]
         (init [Start_cas, IsRunning_load, Wait_load])) ! 2
     \<notin> {Wait_ret (Some errProcNotStarted),
         Wait_ret (Some (OSError ''no such file or directory''))}"
  by (simp add: init_def NewProc_def prims)



subsection \<open>A started supervisor: the invariant\<close>

text \<open>What a step of a caller (not the goroutine) can change.\<close>

lemma caller_frame:
  assumes "tstep i r s t = Some (s', t', new)" and "caller_shape G t" and "i \<noteq> k"
    and "isRunning (proc s) = 1"
  shows "waitErr (proc s') = waitErr (proc s) \<and> child s' = child s
       \<and> isRunning (proc s') = 1 \<and> cmd_Process (proc s') = cmd_Process (proc s)
       \<and> ch_len (connCh (proc s)) \<le> ch_len (connCh (proc s'))
       \<and> (conn (proc s) \<noteq> None \<longrightarrow> conn (proc s') \<noteq> None)
       \<and> (rpcGW (proc s) \<noteq> None \<longrightarrow> rpcGW (proc s') \<noteq> None)
       \<and> events_of k s' = events_of k s \<and> new = []
       \<and> (waitMx (proc s) \<longrightarrow> waitMx (proc s') \<or> post_Unlock G)
       \<and> (ch_closed (connCh (proc s')) \<longrightarrow>
            ch_closed (connCh (proc s)) \<or> t = InjectConn_close \<or> post_Unlock G)
       \<and> (ch_len (connCh (proc s')) = ch_len (connCh (proc s)) \<or> t = InjectConn_send)"
  using assms
  by (cases t) (auto simp: prims' split: if_splits option.splits once.splits)

lemma pre_post_Unlock: "pre_Unlock G \<Longrightarrow> post_Unlock G \<Longrightarrow> False"
  by (cases G) simp_all

lemma caller_next:
  assumes "tstep i r s t = Some (s', t', new)" and "caller_inv s G t"
    and "pre_Unlock G \<longrightarrow> waitMx (proc s)" and "pre_Unlock G \<or> post_Unlock G"
    and "isRunning (proc s) = 1"
  shows "caller_inv s' G t'"
  using assms
  by (cases t)
     (auto simp: caller_inv_def prims' split: if_splits option.splits once.splits)


lemma caller_step:
  assumes st: "tstep i r s t = Some (s', t', new)" and i: "i \<noteq> 1"
    and G: "Go_inv s G" and t: "caller_inv s G t"
  shows "Go_inv s' G \<and> caller_inv s' G t' \<and> new = []"
proof -
  from G have run: "isRunning (proc s) = 1" by (simp add: Go_inv_def)
  from t have sh: "caller_shape G t" by (simp add: caller_inv_def)
  note fr = caller_frame [OF st sh i run]
  from G have lk: "pre_Unlock G \<longrightarrow> waitMx (proc s)" and v: "pre_Unlock G \<or> post_Unlock G"
    by (simp_all add: Go_inv_def)
  have "caller_inv s' G t'" by (rule caller_next [OF st t lk v run])
  moreover have "Go_inv s' G"
  proof -
    from G obtain r0 where h: "events_of 1 s = Go_history (waitErr (proc s)) r0 G"
      by (auto simp: Go_inv_def)
    have a: "pre_Unlock G \<longrightarrow> waitMx (proc s')"
      using fr lk pre_post_Unlock [of G] by blast
    have b: "G = Go_awaitConn \<and> ch_closed (connCh (proc s')) \<longrightarrow> 0 < ch_len (connCh (proc s'))"
    proof (intro impI, elim conjE)
      assume g: "G = Go_awaitConn" and c: "ch_closed (connCh (proc s'))"
      from g have np: "\<not> post_Unlock G" by simp
      from fr c np have "ch_closed (connCh (proc s)) \<or> t = InjectConn_close" by blast
      then show "0 < ch_len (connCh (proc s'))"
      proof
        assume "ch_closed (connCh (proc s))"
        with G g have "0 < ch_len (connCh (proc s))" by (simp add: Go_inv_def)
        with fr show ?thesis by linarith
      next
        assume "t = InjectConn_close"
        with t g have "0 < ch_len (connCh (proc s))" by (simp add: caller_inv_def)
        with fr show ?thesis by linarith
      qed
    qed
    have c: "G \<noteq> Go_awaitConn \<or> 0 < ch_len (connCh (proc s')) \<longrightarrow>
               conn (proc s') \<noteq> None \<and> rpcGW (proc s') \<noteq> None"
    proof
      assume d: "G \<noteq> Go_awaitConn \<or> 0 < ch_len (connCh (proc s'))"
      have "conn (proc s) \<noteq> None \<and> rpcGW (proc s) \<noteq> None"
      proof (cases "t = InjectConn_send")
        case True
        with t show ?thesis by (simp add: caller_inv_def)
      next
        case False
        with fr have "ch_len (connCh (proc s')) = ch_len (connCh (proc s))" by blast
        with d G show ?thesis by (simp add: Go_inv_def)
      qed
      with fr show "conn (proc s') \<noteq> None \<and> rpcGW (proc s') \<noteq> None" by blast
    qed
    from fr h have e: "events_of 1 s' = Go_history (waitErr (proc s')) r0 G" by simp
    from G fr have f: "(pre_Unlock G \<or> post_Unlock G) \<and> isRunning (proc s') = 1
        \<and> cmd_Process (proc s') \<and> child s' \<noteq> NotSpawned
        \<and> (pre_Wait G \<longrightarrow> waitErr (proc s') = None)
        \<and> (\<not> pre_Wait G \<longrightarrow> child s' = Exited (waitErr (proc s')))"
      by (simp add: Go_inv_def)
    from a b c e f show ?thesis unfolding Go_inv_def by blast
  qed
  ultimately show ?thesis using fr by simp
qed

lemma caller_stable:
  assumes "tstep i r s t = Some (s', t', new)" and "i \<noteq> 1"
    and "Go_inv s G" and "caller_inv s G t" and "caller_inv s G u"
  shows "caller_inv s' G u"
proof -
  from assms(3) have run: "isRunning (proc s) = 1" by (simp add: Go_inv_def)
  from assms(4) have sh: "caller_shape G t" by (simp add: caller_inv_def)
  from caller_frame [OF assms(1) sh assms(2) run] assms(5)
  show ?thesis by (auto simp: caller_inv_def)
qed

lemma Go_step:
  assumes "tstep 1 r s G = Some (s', G', new)" and "Go_inv s G"
  shows "Go_inv s' G' \<and> new = [] \<and> G' \<noteq> Go_awaitConn
       \<and> conn (proc s') = conn (proc s) \<and> rpcGW (proc s') = rpcGW (proc s)
       \<and> (post_Unlock G \<longrightarrow> post_Unlock G' \<and> waitErr (proc s') = waitErr (proc s))"
  using assms
  by (cases G)
     (auto simp: Go_inv_def prims' serving_def split: if_splits option.splits child.splits)

lemma caller_shape_mono:
  "caller_shape G u \<Longrightarrow> (post_Unlock G \<longrightarrow> post_Unlock G') \<Longrightarrow> caller_shape G' u"
  by (cases u) simp_all

lemma Go_stable:
  assumes "tstep 1 r s G = Some (s', G', new)" and "Go_inv s G" and "caller_inv s G u"
  shows "caller_inv s' G' u"
proof -
  note g = Go_step [OF assms(1,2)]
  from assms(3) have sh: "caller_shape G u" by (simp add: caller_inv_def)
  with g have sh': "caller_shape G' u" using caller_shape_mono by blast
  have "\<forall>r. u = Wait_Unlock r \<or> u = Wait_ret r \<longrightarrow> r = waitErr (proc s')"
  proof (intro allI impI)
    fix r assume u: "u = Wait_Unlock r \<or> u = Wait_ret r"
    with sh have "post_Unlock G" by auto
    with g have "waitErr (proc s') = waitErr (proc s)" by simp
    with u assms(3) show "r = waitErr (proc s')" by (auto simp: caller_inv_def)
  qed
  with sh' g assms(3) show ?thesis by (simp add: caller_inv_def)
qed


lemma started_inv_step:
  assumes inv: "started_inv c" and st: "step l c = Some c'"
  shows "started_inv c'"
proof -
  obtain s ts where c: "c = (s, ts)" by (cases c)
  from inv c have len: "1 < length ts" and G: "Go_inv s (ts ! 1)"
    and T: "\<And>j. j < length ts \<Longrightarrow> j \<noteq> 1 \<Longrightarrow> caller_inv s (ts ! 1) (ts ! j)"
    by (simp_all add: started_inv_def)
  show ?thesis
  proof (cases l)
    case (ChildExit e)
    with st c have alive: "child s = Alive" and c': "c' = (s\<lparr> child := Exited (os_error e) \<rparr>, ts)"
      by (auto split: if_splits)
    from G alive have "Go_inv (s\<lparr> child := Exited (os_error e) \<rparr>) (ts ! 1)"
      by (auto simp: Go_inv_def)
    moreover have "\<And>j. j < length ts \<Longrightarrow> j \<noteq> 1 \<Longrightarrow>
        caller_inv (s\<lparr> child := Exited (os_error e) \<rparr>) (ts ! 1) (ts ! j)"
      using T by (simp add: caller_inv_def)
    ultimately show ?thesis using c' len by (simp add: started_inv_def)
  next
    case (Run i r)
    with st c obtain s' t' new where
      t: "tstep i r s (ts ! i) = Some (s', t', new)" and c': "c' = (s', ts[i := t'] @ new)"
      and i: "i < length ts"
      by (auto split: if_splits option.splits)
    show ?thesis
    proof (cases "i = 1")
      case True
      note g = Go_step [OF t [unfolded True] G]
      have "\<And>j. j < length ts \<Longrightarrow> j \<noteq> 1 \<Longrightarrow> caller_inv s' t' (ts ! j)"
        using Go_stable [OF t [unfolded True] G] T by blast
      with g c' len True show ?thesis by (simp add: started_inv_def)
    next
      case False
      from T [OF i False] have ti: "caller_inv s (ts ! 1) (ts ! i)" .
      note k = caller_step [OF t False G ti]
      have "\<And>j. j < length ts \<Longrightarrow> j \<noteq> 1 \<Longrightarrow> caller_inv s' (ts ! 1) ((ts[i := t']) ! j)"
      proof -
        fix j assume j: "j < length ts" "j \<noteq> 1"
        show "caller_inv s' (ts ! 1) ((ts[i := t']) ! j)"
        proof (cases "j = i")
          case True
          with k i show ?thesis by simp
        next
          case False
          with caller_stable [OF t \<open>i \<noteq> 1\<close> G ti T [OF j]] show ?thesis by simp
        qed
      qed
      with k c' len False show ?thesis by (simp add: started_inv_def)
    qed
  qed
qed

lemma started_inv_exec: "started_inv c \<Longrightarrow> started_inv (exec ls c)"
proof (induction ls arbitrary: c)
  case Nil
  then show ?case by simp
next
  case (Cons l ls)
  show ?case
  proof (cases "step l c")
    case None
    with Cons show ?thesis by simp
  next
    case (Some c')
    with Cons.prems have "started_inv c'" by (rule started_inv_step)
    with Cons.IH Some show ?thesis by simp
  qed
qed

lemma is_call_caller_inv: "is_call t \<Longrightarrow> caller_inv s G t"
  by (cases t) (simp_all add: caller_inv_def)

lemma started_inv_started:
  assumes "list_all is_call ts"
  shows "started_inv (started ts)"
proof -
  have "\<And>j. j < length (Start_ret None # Go_awaitConn # ts) \<Longrightarrow> j \<noteq> 1 \<Longrightarrow>
      caller_inv s G ((Start_ret None # Go_awaitConn # ts) ! j)" for s G
  proof -
    fix j assume j: "j < length (Start_ret None # Go_awaitConn # ts)" "j \<noteq> 1"
    show "caller_inv s G ((Start_ret None # Go_awaitConn # ts) ! j)"
    proof (cases j)
      case 0
      then show ?thesis by (simp add: caller_inv_def)
    next
      case (Suc k)
      with j obtain m where m: "k = Suc m" by (cases k) auto
      with Suc j have "m < length ts" by simp
      with assms have "is_call (ts ! m)" by (simp add: list_all_length)
      with Suc m show ?thesis by (simp add: is_call_caller_inv)
    qed
  qed
  then show ?thesis
    by (simp add: started_eq started_inv_def Go_inv_def NewProc_def events_of_def)
qed

lemma Go_history_prefix:
  "pre_Unlock G \<or> post_Unlock G \<Longrightarrow> prefix (Go_history e r G) (serving e r)"
  by (cases G) (simp_all add: serving_def)


lemma Go_history_length:
  "pre_Unlock G \<or> post_Unlock G \<Longrightarrow> (3 < length (Go_history e r G)) = (\<not> pre_Wait G)"
  by (cases G) (simp_all add: serving_def)

lemma Go_history_CmdWait:
  "pre_Unlock G \<or> post_Unlock G \<Longrightarrow> \<not> pre_Wait G \<Longrightarrow> EvCmdWait e \<in> set (Go_history e r G)"
  by (cases G) (simp_all add: serving_def)

lemma post_Unlock_not_pre_Wait: "post_Unlock G \<Longrightarrow> \<not> pre_Wait G"
  by (cases G) simp_all

subsection \<open>The order of the cleanup\<close>

text \<open>
  C7, as the code has it. \<^verbatim>\<open>Start\<close> has returned nil, and any calls are made
  afterwards, in any interleaving. What the goroutine (thread 1) has done so far is
  always an initial part of this sequence: receive the connection signal, serve, start
  the discovery publisher, \<^verbatim>\<open>cmd.Wait\<close> returning the error that is stored in
  \<^verbatim>\<open>waitErr\<close>, close the connection (whatever error \<open>r\<close> that returns, with a
  warning in the log unless it is the error of a connection closed already), close all of
  the connection manager, close all of the listener manager, unlock the mutex, and only
  then stop the discovery publisher (the deferred call runs when the goroutine returns).
  When the goroutine has returned it has done all of it. Once \<^verbatim>\<open>cmd.Wait\<close> has
  returned, the child has exited with the error stored in \<^verbatim>\<open>waitErr\<close>.
\<close>

theorem Go_cleanup_order:
  assumes "list_all is_call ts"
  shows "case exec ls (started ts) of (s, ts') \<Rightarrow>
     \<exists>r. prefix (events_of 1 s)
            ([EvRecv True, EvServe, EvDiscStart, EvCmdWait (waitErr (proc s)), EvConnClose r]
             @ (if close_unexpected r then [EvLogWarn] else [])
             @ [EvCMCloseAll, EvLMCloseAll, EvUnlock, EvDiscStop])
        \<and> (ts' ! 1 = Go_ret \<longrightarrow>
             events_of 1 s =
               [EvRecv True, EvServe, EvDiscStart, EvCmdWait (waitErr (proc s)), EvConnClose r]
               @ (if close_unexpected r then [EvLogWarn] else [])
               @ [EvCMCloseAll, EvLMCloseAll, EvUnlock, EvDiscStop])
        \<and> (3 < length (events_of 1 s) \<longrightarrow> child s = Exited (waitErr (proc s)))"
proof -
  obtain s ts' where e: "exec ls (started ts) = (s, ts')" by (cases "exec ls (started ts)")
  from started_inv_exec [OF started_inv_started [OF assms], of ls] e
  have G: "Go_inv s (ts' ! 1)" by (simp add: started_inv_def)
  then have v: "pre_Unlock (ts' ! 1) \<or> post_Unlock (ts' ! 1)" by (simp add: Go_inv_def)
  from G obtain r where h: "events_of 1 s = Go_history (waitErr (proc s)) r (ts' ! 1)"
    by (auto simp: Go_inv_def)
  have 1: "prefix (events_of 1 s) (serving (waitErr (proc s)) r)"
    using Go_history_prefix [OF v] h by simp
  have 2: "ts' ! 1 = Go_ret \<longrightarrow> events_of 1 s = serving (waitErr (proc s)) r"
    using h by simp
  have 3: "3 < length (events_of 1 s) \<longrightarrow> child s = Exited (waitErr (proc s))"
    using Go_history_length [OF v] h G by (simp add: Go_inv_def)
  from 1 2 3 e show ?thesis unfolding serving_def by auto
qed

text \<open>A whole run: the child exits with status 1 and the close fails with a broken pipe.\<close>

theorem Go_cleanup_order_witness:
  "list_all is_call [InjectConn_once 7]
   \<and> (case exec [Run 2 None, Run 2 None, Run 2 None, Run 2 None, Run 2 None,
                 Run 1 None, Run 1 None, Run 1 None, ChildExit (Some ''exit status 1''),
                 Run 1 None, Run 1 (Some ''broken pipe''), Run 1 None, Run 1 None, Run 1 None,
                 Run 1 None] (started [InjectConn_once 7])
      of (s, ts') \<Rightarrow>
        ts' ! 1 = Go_ret
        \<and> events_of 1 s =
            [EvRecv True, EvServe, EvDiscStart, EvCmdWait (Some (OSError ''exit status 1'')),
             EvConnClose (Some (OSError ''broken pipe'')), EvLogWarn,
             EvCMCloseAll, EvLMCloseAll, EvUnlock, EvDiscStop]
        \<and> child s = Exited (Some (OSError ''exit status 1'')))"
proof -
  have h: "list_all is_call [InjectConn_once 7]" by simp
  from Go_cleanup_order [OF h, of "[Run 2 None, Run 2 None, Run 2 None, Run 2 None, Run 2 None,
                 Run 1 None, Run 1 None, Run 1 None, ChildExit (Some ''exit status 1''),
                 Run 1 None, Run 1 (Some ''broken pipe''), Run 1 None, Run 1 None, Run 1 None,
                 Run 1 None]"]
  show ?thesis
    by (simp add: started_eq NewProc_def prims close_unexpected_def events_of_def)
qed

text \<open>
  The order of the specification (stop the discovery publisher, then release the mutex)
  fails: in this run the goroutine has unlocked and \<^verbatim>\<open>Wait\<close> has returned while the
  discovery publisher is not stopped yet; it is stopped as the last step.
\<close>

theorem Go_cleanup_order_counterexample:
  "(case exec [Run 2 None, Run 2 None, Run 2 None, Run 2 None, Run 2 None,
               Run 1 None, Run 1 None, Run 1 None, ChildExit None,
               Run 1 None, Run 1 None, Run 1 None, Run 1 None, Run 1 None,
               Run 3 None, Run 3 None, Run 3 None, Run 3 None]
          (started [InjectConn_once 7, Wait_load])
    of (s, ts') \<Rightarrow>
      ts' = [Start_ret None, Go_disc_Stop, InjectConn_ret True, Wait_ret None]
      \<and> \<not> waitMx (proc s)
      \<and> events_of 1 s = [EvRecv True, EvServe, EvDiscStart, EvCmdWait None, EvConnClose None,
                         EvCMCloseAll, EvLMCloseAll, EvUnlock])
   \<and> events_of 1 (fst (exec [Run 2 None, Run 2 None, Run 2 None, Run 2 None, Run 2 None,
               Run 1 None, Run 1 None, Run 1 None, ChildExit None,
               Run 1 None, Run 1 None, Run 1 None, Run 1 None, Run 1 None, Run 1 None]
          (started [InjectConn_once 7, Wait_load])))
       = [EvRecv True, EvServe, EvDiscStart, EvCmdWait None, EvConnClose None,
          EvCMCloseAll, EvLMCloseAll, EvUnlock, EvDiscStop]"
  by (simp add: started_eq NewProc_def prims close_unexpected_def events_of_def)

subsection \<open>Stop before any connection is injected\<close>

lemma awaiting_tstep:
  assumes "tstep i r s t = Some (s', t', new)" and "awaiting_ok t"
    and "proc s = NewProc\<lparr> cmd_Process := True, isRunning := 1, waitMx := True \<rparr>"
    and "list_all (\<lambda>p. quiet (snd p)) (trace s)"
  shows "proc s' = proc s \<and> fault s' = fault s \<and> child s' = child s \<and> new = []
       \<and> awaiting_ok t' \<and> t \<noteq> Go_awaitConn \<and> list_all (\<lambda>p. quiet (snd p)) (trace s')"
  using assms
  by (cases t) (auto simp: prims NewProc_def split: if_splits option.splits error.splits)

lemma awaiting_step:
  assumes inv: "awaiting c" and st: "step l c = Some c'"
  shows "awaiting c'"
proof -
  obtain s ts where c: "c = (s, ts)" by (cases c)
  show ?thesis
  proof (cases l)
    case (ChildExit e)
    with st c inv show ?thesis by (auto simp: awaiting_def split: if_splits)
  next
    case (Run i r)
    with st c obtain s' t' new where
      t: "tstep i r s (ts ! i) = Some (s', t', new)" and c': "c' = (s', ts[i := t'] @ new)"
      and i: "i < length ts"
      by (auto split: if_splits option.splits)
    from inv c i have ok: "awaiting_ok (ts ! i)" by (simp add: awaiting_def list_all_length)
    from inv c have p: "proc s = NewProc\<lparr> cmd_Process := True, isRunning := 1, waitMx := True \<rparr>"
      and q: "list_all (\<lambda>p. quiet (snd p)) (trace s)" by (simp_all add: awaiting_def)
    note k = awaiting_tstep [OF t ok p q]
    with inv c have "i \<noteq> 1" by (auto simp: awaiting_def)
    moreover from inv c k i have "list_all awaiting_ok (ts[i := t'])"
      by (simp add: awaiting_def list_all_length nth_list_update)
    ultimately show ?thesis using inv c c' k by (simp add: awaiting_def)
  qed
qed

lemma awaiting_exec: "awaiting c \<Longrightarrow> awaiting (exec ls c)"
proof (induction ls arbitrary: c)
  case Nil
  then show ?case by simp
next
  case (Cons l ls)
  show ?case
  proof (cases "step l c")
    case None
    with Cons show ?thesis by simp
  next
    case (Some c')
    with Cons.prems have "awaiting c'" by (rule awaiting_step)
    with Cons.IH Some show ?thesis by simp
  qed
qed

lemma no_InjectConn_awaiting_ok: "no_InjectConn t \<Longrightarrow> awaiting_ok t"
  by (cases t) simp_all

lemma awaiting_started:
  assumes "list_all no_InjectConn ts"
  shows "awaiting (started ts)"
proof -
  from assms have "list_all awaiting_ok ts"
    by (simp add: list_all_iff no_InjectConn_awaiting_ok)
  then show ?thesis by (simp add: started_eq awaiting_def)
qed

lemma awaiting_ok_not_returned:
  "awaiting_ok t \<Longrightarrow> t \<noteq> Stop_ret None \<and> (\<forall>r. t \<noteq> Wait_ret r)"
  by (cases t) (auto split: option.splits error.splits)

text \<open>
  C1, on the code. \<^verbatim>\<open>Start\<close> has returned nil, no connection is ever injected, and
  any calls of \<^verbatim>\<open>Stop\<close>, \<^verbatim>\<open>Wait\<close>, \<^verbatim>\<open>Start\<close> and \<^verbatim>\<open>IsRunning\<close> are
  made, in any interleaving. Then the mutex stays locked, the channel is never closed
  (the once is never used), the goroutine stays in \<^verbatim>\<open>awaitConn\<close>, the child is never
  killed, no call of \<^verbatim>\<open>Wait\<close> returns, and no call of \<^verbatim>\<open>Stop\<close> returns nil:
  \<^verbatim>\<open>Stop\<close> closes the channel only after it has acquired the mutex, which the
  goroutine releases only after the channel has been closed.
\<close>

theorem Stop_before_InjectConn_blocks:
  assumes "list_all no_InjectConn ts"
  shows "case exec ls (started ts) of (s, ts') \<Rightarrow>
           waitMx (proc s) \<and> \<not> ch_closed (connCh (proc s)) \<and> connOnce (proc s) = OnceFresh
           \<and> ts' ! 1 = Go_awaitConn \<and> EvKill \<notin> snd ` set (trace s)
           \<and> (\<forall>t \<in> set ts'. t \<noteq> Stop_ret None \<and> (\<forall>r. t \<noteq> Wait_ret r))"
proof -
  obtain s ts' where e: "exec ls (started ts) = (s, ts')" by (cases "exec ls (started ts)")
  from awaiting_exec [OF awaiting_started [OF assms], of ls] e
  have a: "awaiting (s, ts')" by simp
  then have "\<forall>t \<in> set ts'. t \<noteq> Stop_ret None \<and> (\<forall>r. t \<noteq> Wait_ret r)"
    using awaiting_ok_not_returned by (auto simp: awaiting_def list_all_iff)
  moreover from a have "EvKill \<notin> snd ` set (trace s)"
    by (auto simp: awaiting_def list_all_iff)
  ultimately show ?thesis using a e by (simp add: awaiting_def NewProc_def)
qed

text \<open>
  A run that ends in a deadlock: \<^verbatim>\<open>Stop\<close> has sent the signal and the child has
  exited, yet \<^verbatim>\<open>Stop\<close> and \<^verbatim>\<open>Wait\<close> both wait for the mutex and no step is
  enabled.
\<close>

theorem Stop_before_InjectConn_blocks_witness:
  "list_all no_InjectConn [Stop_load, Wait_load]
   \<and> exec [Run 2 None, Run 2 None, Run 3 None, ChildExit (Some ''signal: interrupt'')]
       (started [Stop_load, Wait_load])
     = ((fst (started [Stop_load, Wait_load]))
          \<lparr> child := Exited (Some (OSError ''signal: interrupt'')),
            trace := trace (fst (started [Stop_load, Wait_load])) @ [(2, EvSignal None)] \<rparr>,
        [Start_ret None, Go_awaitConn, Stop_Lock, Wait_Lock])
   \<and> (\<forall>l. step l (exec [Run 2 None, Run 2 None, Run 3 None,
                         ChildExit (Some ''signal: interrupt'')]
                    (started [Stop_load, Wait_load])) = None)"
proof -
  have h: "list_all no_InjectConn [Stop_load, Wait_load]" by simp
  have e: "exec [Run 2 None, Run 2 None, Run 3 None, ChildExit (Some ''signal: interrupt'')]
       (started [Stop_load, Wait_load])
     = ((fst (started [Stop_load, Wait_load]))
          \<lparr> child := Exited (Some (OSError ''signal: interrupt'')),
            trace := trace (fst (started [Stop_load, Wait_load])) @ [(2, EvSignal None)] \<rparr>,
        [Start_ret None, Go_awaitConn, Stop_Lock, Wait_Lock])"
    by (simp add: started_eq NewProc_def prims)
  have "step l (exec [Run 2 None, Run 2 None, Run 3 None,
                         ChildExit (Some ''signal: interrupt'')]
                    (started [Stop_load, Wait_load])) = None" for l
  proof (cases l)
    case (Run i r)
    have "i = 0 \<or> i = 1 \<or> i = 2 \<or> i = 3 \<or> 4 \<le> i" by arith
    then show ?thesis unfolding e Run
      by (elim disjE) (simp_all add: started_eq NewProc_def prims)
  next
    case (ChildExit x)
    then show ?thesis unfolding e by (simp add: started_eq)
  qed
  with Stop_before_InjectConn_blocks [OF h, of "[Run 2 None, Run 2 None, Run 3 None,
      ChildExit (Some ''signal: interrupt'')]"] h e
  show ?thesis by simp
qed


subsection \<open>The once and the channel: the invariant\<close>


lemma cnt_simps [simp]:
  "cnt P [] = 0"
  "cnt P (x # xs) = (if P x then Suc (cnt P xs) else cnt P xs)"
  "cnt P (xs @ ys) = cnt P xs + cnt P ys"
  by (simp_all add: cnt_def)

lemma cnt_update:
  "i < length xs \<Longrightarrow>
     cnt P (xs[i := y]) + (if P (xs ! i) then 1 else 0) = cnt P xs + (if P y then 1 else 0)"
proof (induction xs arbitrary: i)
  case Nil
  then show ?case by simp
next
  case (Cons x xs)
  then show ?case by (cases i) auto
qed

lemma cnt_ge_one: "i < length xs \<Longrightarrow> P (xs ! i) \<Longrightarrow> 1 \<le> cnt P xs"
proof (induction xs arbitrary: i)
  case Nil
  then show ?case by simp
next
  case (Cons x xs)
  then show ?case by (cases i) auto
qed

lemma cnt_two:
  "i < length xs \<Longrightarrow> j < length xs \<Longrightarrow> i \<noteq> j \<Longrightarrow> P (xs ! i) \<Longrightarrow> P (xs ! j) \<Longrightarrow> 2 \<le> cnt P xs"
proof (induction xs arbitrary: i j)
  case Nil
  then show ?case by simp
next
  case (Cons x xs)
  show ?case
  proof (cases i)
    case 0
    with Cons.prems obtain j' where j: "j = Suc j'" by (cases j) auto
    with Cons.prems have "1 \<le> cnt P xs" using cnt_ge_one [of j' xs P] by simp
    with 0 Cons.prems show ?thesis by simp
  next
    case (Suc i')
    show ?thesis
    proof (cases j)
      case 0
      from Suc Cons.prems have "1 \<le> cnt P xs" using cnt_ge_one [of i' xs P] by simp
      with 0 Cons.prems show ?thesis by simp
    next
      case (Suc j')
      with \<open>i = Suc i'\<close> Cons.prems have "2 \<le> cnt P xs"
        using Cons.IH [of i' j'] by simp
      then show ?thesis by simp
    qed
  qed
qed

lemma cnt_zero: "cnt P xs = 0 \<Longrightarrow> i < length xs \<Longrightarrow> \<not> P (xs ! i)"
  using cnt_ge_one [of i xs P] by auto

lemma sends_simps [simp]:
  "sends (emit i ev s) = (if ev = EvSend then Suc (sends s) else sends s)"
  "sends (s\<lparr> proc := p \<rparr>) = sends s"
  "sends (s\<lparr> child := ch \<rparr>) = sends s"
  "sends (s\<lparr> fault := f \<rparr>) = sends s"
  by (simp_all add: sends_def emit_def)

lemma closes_simps [simp]:
  "closes (emit i ev s) = (if ev = EvClose then Suc (closes s) else closes s)"
  "closes (s\<lparr> proc := p \<rparr>) = closes s"
  "closes (s\<lparr> child := ch \<rparr>) = closes s"
  "closes (s\<lparr> fault := f \<rparr>) = closes s"
  by (simp_all add: closes_def emit_def)

lemma no_send_after_close_snoc:
  "no_send_after_close (evs @ [ev]) =
     (no_send_after_close evs \<and> (ev = EvSend \<longrightarrow> EvClose \<notin> set evs))"
  by (induction evs) auto

lemma closes_zero: "closes s = 0 \<Longrightarrow> EvClose \<notin> set (map snd (trace s))"
  by (auto simp: closes_def cnt_def filter_empty_conv)

lemma order_ok_simps [simp]:
  "order_ok (emit i ev s) = (order_ok s \<and> (ev = EvSend \<longrightarrow> EvClose \<notin> set (map snd (trace s))))"
  "order_ok (s\<lparr> proc := p \<rparr>) = order_ok s"
  "order_ok (s\<lparr> child := ch \<rparr>) = order_ok s"
  "order_ok (s\<lparr> fault := f \<rparr>) = order_ok s"
  by (simp_all add: order_ok_def emit_def no_send_after_close_snoc)


lemma once_fault:
  assumes "tstep i r s t = Some (s', t', new)" and "\<not> chan_fault s"
    and "before_close t \<longrightarrow> \<not> ch_closed (connCh (proc s))"
  shows "\<not> chan_fault s' \<and> ch_cap (connCh (proc s')) = ch_cap (connCh (proc s))"
  using assms
  by (cases t)
     (auto simp: chan_fault_def prims' split: if_splits option.splits once.splits child.splits)

lemma once_moves:
  assumes "tstep i r s t = Some (s', t', new)"
    and "in_Do t \<longrightarrow> connOnce (proc s) = OnceRunning"
    and "before_close t \<longrightarrow> \<not> ch_closed (connCh (proc s))"
  shows "(if in_Do t' then 1 else 0) + (if connOnce (proc s) = OnceRunning then 1 else 0)
           = (if in_Do t then 1 else 0) + (if connOnce (proc s') = OnceRunning then 1::nat else 0)
       \<and> (connOnce (proc s') = connOnce (proc s)
           \<or> (connOnce (proc s) = OnceFresh \<and> connOnce (proc s') = OnceRunning \<and> in_Do t')
           \<or> (connOnce (proc s) = OnceRunning \<and> connOnce (proc s') = OnceDone \<and> in_Do t))
       \<and> (\<forall>n \<in> set new. n = Go_awaitConn)"
  using assms
  by (cases t)
     (auto simp: prims' split: if_splits option.splits once.splits child.splits)

lemma once_chan:
  assumes "tstep i r s t = Some (s', t', new)"
  shows "ch_closed (connCh (proc s)) \<longrightarrow> ch_closed (connCh (proc s'))"
    and "ch_closed (connCh (proc s')) = ch_closed (connCh (proc s)) \<longrightarrow> closes s' = closes s"
    and "ch_closed (connCh (proc s')) \<and> \<not> ch_closed (connCh (proc s)) \<longrightarrow>
            in_Do t \<and> closes s' = Suc (closes s)"
    and "ch_len (connCh (proc s')) \<le> ch_len (connCh (proc s)) \<or> t = InjectConn_send"
    and "sends s' = sends s \<and> order_ok s' = order_ok s
           \<or> (t = InjectConn_send \<and> sends s' = Suc (sends s) \<and> \<not> ch_closed (connCh (proc s))
               \<and> order_ok s' = (order_ok s \<and> EvClose \<notin> set (map snd (trace s))))"
    and "conn (proc s') = conn (proc s) \<and> rpcGW (proc s') = rpcGW (proc s)
           \<or> (\<exists>c. t = InjectConn_store c)"
  using assms
  by (cases t;
      auto simp: prims' split: if_splits option.splits once.splits child.splits)+

lemma once_local_next:
  assumes "tstep i r s t = Some (s', t', new)" and "once_local s t"
    and "connOnce (proc s) = OnceFresh \<longrightarrow>
           \<not> ch_closed (connCh (proc s)) \<and> ch_len (connCh (proc s)) = 0 \<and> sends s = 0"
    and "ch_cap (connCh (proc s)) = 1"
  shows "once_local s' t' \<and> (InjectConn_won t \<longrightarrow> InjectConn_won t')
       \<and> (InjectConn_won t' \<and> \<not> InjectConn_won t \<longrightarrow>
            (\<exists>c. t = InjectConn_once c) \<and> connOnce (proc s) = OnceFresh)
       \<and> (is_Stop t' \<longrightarrow> is_Stop t) \<and> (is_call t' \<longrightarrow> False)
       \<and> (connOnce (proc s) = OnceFresh \<and> connOnce (proc s') \<noteq> OnceFresh \<longrightarrow>
            InjectConn_won t' \<or> is_Stop t)"
  using assms
  by (cases t)
     (auto simp: once_local_def prims' split: if_splits option.splits once.splits child.splits)

lemma inj_rel_next:
  assumes "tstep i r s t = Some (s', t', new)" and "inj_rel s call t"
    and "before_close t \<longrightarrow> \<not> ch_closed (connCh (proc s))"
    and "is_call t \<longrightarrow> call = t"
  shows "inj_rel s' call t'"
proof (cases "\<exists>c. call = InjectConn_once c")
  case False
  then show ?thesis by (cases call) simp_all
next
  case True
  then obtain c where c: "call = InjectConn_once c" by blast
  show ?thesis using assms unfolding c
    by (cases t)
       (auto simp: prims' split: if_splits option.splits once.splits child.splits)
qed


lemma nth_run:
  assumes "i < length ts" and "j < length (ts[i := t'] @ new)"
  obtains "j = i" and "(ts[i := t'] @ new) ! j = t'"
  | "j \<noteq> i" and "j < length ts" and "(ts[i := t'] @ new) ! j = ts ! j"
  | "length ts \<le> j" and "(ts[i := t'] @ new) ! j \<in> set new"
proof (cases "j < length ts")
  case True
  then show ?thesis using assms that(1,2) by (cases "j = i") (simp_all add: nth_append)
next
  case False
  with assms have "j - length ts < length new" by simp
  then have "new ! (j - length ts) \<in> set new" by simp
  with False assms that(3) show ?thesis by (simp add: nth_append)
qed

lemma in_Do_facts:
  "before_close u \<Longrightarrow> in_Do u"
  "before_send u \<Longrightarrow> in_Do u"
  "after_send u \<Longrightarrow> in_Do u \<or> u = InjectConn_ret True"
  "after_store u \<Longrightarrow> in_Do u \<or> u = InjectConn_ret True"
  by (cases u; simp)+


lemma once_local_stable:
  assumes st: "tstep i r s t = Some (s', t', new)" and t: "once_local s t"
    and u: "once_local s u" and ex: "\<not> (in_Do t \<and> in_Do u)"
  shows "once_local s' u"
proof -
  from t have a: "in_Do t \<longrightarrow> connOnce (proc s) = OnceRunning"
    and b: "before_close t \<longrightarrow> \<not> ch_closed (connCh (proc s))"
    by (simp_all add: once_local_def)
  note m = once_moves [OF st a b]
  note c = once_chan [OF st]
  have 1: "in_Do u \<longrightarrow> connOnce (proc s') = OnceRunning"
  proof
    assume d: "in_Do u"
    with u have "connOnce (proc s) = OnceRunning" by (simp add: once_local_def)
    moreover from d ex have "\<not> in_Do t" by simp
    ultimately show "connOnce (proc s') = OnceRunning" using m
      by (cases "in_Do t'"; cases "connOnce (proc s') = OnceRunning"; simp)
  qed
  from m have tr: "connOnce (proc s') = connOnce (proc s)
           \<or> (connOnce (proc s) = OnceFresh \<and> connOnce (proc s') = OnceRunning \<and> in_Do t')
           \<or> (connOnce (proc s) = OnceRunning \<and> connOnce (proc s') = OnceDone \<and> in_Do t)"
    by blast
  have 2: "InjectConn_won u \<longrightarrow> connOnce (proc s') \<noteq> OnceFresh"
  proof
    assume "InjectConn_won u"
    with u have "connOnce (proc s) \<noteq> OnceFresh" by (simp add: once_local_def)
    with tr show "connOnce (proc s') \<noteq> OnceFresh" by auto
  qed
  have 3: "u = InjectConn_ret True \<or> u = InjectConn_ret False \<longrightarrow>
      connOnce (proc s') = OnceDone"
  proof
    assume "u = InjectConn_ret True \<or> u = InjectConn_ret False"
    with u have "connOnce (proc s) = OnceDone" by (simp add: once_local_def)
    with tr show "connOnce (proc s') = OnceDone" by auto
  qed
  have nd: "in_Do u \<or> u = InjectConn_ret True \<Longrightarrow> \<not> in_Do t"
  proof
    assume "in_Do u \<or> u = InjectConn_ret True" and d: "in_Do t"
    with ex have "u = InjectConn_ret True" by simp
    with u have "connOnce (proc s) = OnceDone" by (simp add: once_local_def)
    with a d show False by simp
  qed
  have ns: "in_Do u \<or> u = InjectConn_ret True \<Longrightarrow> t \<noteq> InjectConn_send"
    using nd by auto
  have 4: "before_close u \<longrightarrow> \<not> ch_closed (connCh (proc s'))"
  proof
    assume d: "before_close u"
    with u have "\<not> ch_closed (connCh (proc s))" by (simp add: once_local_def)
    moreover from d have "\<not> in_Do t" using nd in_Do_facts(1) by blast
    ultimately show "\<not> ch_closed (connCh (proc s'))" using c(3) by blast
  qed
  have 5: "before_send u \<longrightarrow> ch_len (connCh (proc s')) = 0 \<and> sends s' = 0"
  proof
    assume d: "before_send u"
    with u have z: "ch_len (connCh (proc s)) = 0 \<and> sends s = 0" by (simp add: once_local_def)
    from d have "t \<noteq> InjectConn_send" using ns in_Do_facts(2) by blast
    with c(4,5) z have "ch_len (connCh (proc s')) \<le> 0" and "sends s' = sends s" by auto
    with z show "ch_len (connCh (proc s')) = 0 \<and> sends s' = 0" by simp
  qed
  have 6: "after_send u \<longrightarrow> sends s' = 1"
  proof
    assume d: "after_send u"
    with u have z: "sends s = 1" by (simp add: once_local_def)
    from d have "t \<noteq> InjectConn_send" using ns in_Do_facts(3) by blast
    with c(5) have "sends s' = sends s" by blast
    with z show "sends s' = 1" by simp
  qed
  have 7: "after_close u \<longrightarrow> ch_closed (connCh (proc s'))"
  proof
    assume "after_close u"
    with u have "ch_closed (connCh (proc s))" by (simp add: once_local_def)
    with c(1) show "ch_closed (connCh (proc s'))" by blast
  qed
  from 1 2 3 4 5 6 7 show ?thesis by (simp add: once_local_def)
qed

lemma inj_rel_cong:
  "conn (proc s') = conn (proc s) \<Longrightarrow> rpcGW (proc s') = rpcGW (proc s) \<Longrightarrow>
     inj_rel s' call u = inj_rel s call u"
  by (cases call) simp_all


lemma inj_rel_stable:
  assumes st: "tstep i r s t = Some (s', t', new)" and t: "once_local s t"
    and u: "once_local s u" and ex: "\<not> (in_Do t \<and> in_Do u)" and rel: "inj_rel s call u"
  shows "inj_rel s' call u"
proof (cases "\<exists>c. t = InjectConn_store c")
  case False
  with once_chan(6) [OF st] have "conn (proc s') = conn (proc s)"
    and "rpcGW (proc s') = rpcGW (proc s)" by blast+
  from inj_rel_cong [OF this, of call u] rel show ?thesis by simp
next
  case True
  then have d: "in_Do t" by auto
  with t have run: "connOnce (proc s) = OnceRunning" by (simp add: once_local_def)
  from d ex have nu: "\<not> in_Do u" by simp
  have "\<not> after_store u"
  proof
    assume "after_store u"
    with nu have "u = InjectConn_ret True" using in_Do_facts(4) by blast
    with u run show False by (simp add: once_local_def)
  qed
  show ?thesis
  proof (cases "\<exists>c. call = InjectConn_once c")
    case False
    then show ?thesis by (cases call) simp_all
  next
    case True
    then obtain c where c: "call = InjectConn_once c" by blast
    from rel nu \<open>\<not> after_store u\<close> have "u = InjectConn_once c \<or> u = InjectConn_ret False"
      unfolding c by auto
    then show ?thesis unfolding c by auto
  qed
qed



lemma once_child [simp]:
  "once_global (s\<lparr> child := x \<rparr>) = once_global s"
  "once_local (s\<lparr> child := x \<rparr>) t = once_local s t"
  by (simp_all add: once_global_def once_local_def chan_fault_def)

lemma inj_rel_child [simp]: "inj_rel (s\<lparr> child := x \<rparr>) call t = inj_rel s call t"
  by (cases call) simp_all

lemma cnt_none: "(\<And>x. x \<in> set xs \<Longrightarrow> \<not> P x) \<Longrightarrow> cnt P xs = 0"
  by (induction xs) auto

lemma once_global_next:
  assumes st: "tstep i r s t = Some (s', t', new)" and g: "once_global s"
    and lt: "once_local s t"
  shows "once_global s'"
proof -
  from lt have a: "in_Do t \<longrightarrow> connOnce (proc s) = OnceRunning"
    and b: "before_close t \<longrightarrow> \<not> ch_closed (connCh (proc s))"
    and bs: "before_send t \<longrightarrow> ch_len (connCh (proc s)) = 0 \<and> sends s = 0"
    by (simp_all add: once_local_def)
  from g have nf: "\<not> chan_fault s" and cap: "ch_cap (connCh (proc s)) = 1"
    and fr: "connOnce (proc s) = OnceFresh \<longrightarrow>
           \<not> ch_closed (connCh (proc s)) \<and> ch_len (connCh (proc s)) = 0 \<and> sends s = 0"
    and s1: "sends s \<le> 1"
    and cl: "closes s = (if ch_closed (connCh (proc s)) then 1 else 0)"
    and ord: "order_ok s"
    by (simp_all add: once_global_def)
  note m = once_moves [OF st a b]
  note ch = once_chan [OF st]
  note f = once_fault [OF st nf b]
  from m have tr: "connOnce (proc s') = connOnce (proc s)
           \<or> (connOnce (proc s) = OnceFresh \<and> connOnce (proc s') = OnceRunning \<and> in_Do t')
           \<or> (connOnce (proc s) = OnceRunning \<and> connOnce (proc s') = OnceDone \<and> in_Do t)"
    by blast
  have send: "t = InjectConn_send \<Longrightarrow> sends s = 0 \<and> \<not> ch_closed (connCh (proc s))"
    using bs b by simp
  have 1: "connOnce (proc s') = OnceFresh \<longrightarrow>
           \<not> ch_closed (connCh (proc s')) \<and> ch_len (connCh (proc s')) = 0 \<and> sends s' = 0"
  proof
    assume x: "connOnce (proc s') = OnceFresh"
    with tr have y: "connOnce (proc s) = OnceFresh" by auto
    with a have nd: "\<not> in_Do t" by auto
    then have ns: "t \<noteq> InjectConn_send" by auto
    from y fr have z: "\<not> ch_closed (connCh (proc s))" "ch_len (connCh (proc s)) = 0" "sends s = 0"
      by simp_all
    from ch(3) nd z have "\<not> ch_closed (connCh (proc s'))" by blast
    moreover from ch(4) ns z have "ch_len (connCh (proc s')) = 0" by simp
    moreover from ch(5) ns z have "sends s' = 0" by auto
    ultimately show "\<not> ch_closed (connCh (proc s')) \<and> ch_len (connCh (proc s')) = 0 \<and> sends s' = 0"
      by simp
  qed
  have 2: "sends s' \<le> 1"
  proof (cases "t = InjectConn_send")
    case True
    with send ch(5) show ?thesis by auto
  next
    case False
    with ch(5) s1 show ?thesis by auto
  qed
  have 3: "closes s' = (if ch_closed (connCh (proc s')) then 1 else 0)"
  proof (cases "ch_closed (connCh (proc s')) = ch_closed (connCh (proc s))")
    case True
    with ch(2) cl show ?thesis by simp
  next
    case False
    with ch(1) have "ch_closed (connCh (proc s'))" "\<not> ch_closed (connCh (proc s))" by auto
    with ch(3) cl show ?thesis by simp
  qed
  have 4: "order_ok s'"
  proof (cases "t = InjectConn_send")
    case True
    with send cl have "closes s = 0" by simp
    then have "EvClose \<notin> set (map snd (trace s))" by (rule closes_zero)
    with ch(5) ord show ?thesis by auto
  next
    case False
    with ch(5) ord show ?thesis by auto
  qed
  from f cap 1 2 3 4 show ?thesis by (simp add: once_global_def)
qed

lemma once_inv_step:
  assumes inv: "once_inv ts0 c" and st: "step l c = Some c'"
  shows "once_inv ts0 c'"
proof -
  obtain s ts where c: "c = (s, ts)" by (cases c)
  from inv c have g: "once_global s" and len: "length ts0 \<le> length ts"
    and cn: "cnt in_Do ts = (if connOnce (proc s) = OnceRunning then 1 else 0)"
    and cw: "cnt InjectConn_won ts \<le> (if connOnce (proc s) = OnceFresh then 0 else 1)"
    and loc: "\<And>j. j < length ts \<Longrightarrow> once_local s (ts ! j)"
    and call: "\<And>j. j < length ts \<Longrightarrow> is_call (ts ! j) \<Longrightarrow> j < length ts0 \<and> ts0 ! j = ts ! j"
    and rel: "\<And>j. j < length ts0 \<Longrightarrow> inj_rel s (ts0 ! j) (ts ! j)"
    and nostop: "\<And>j. Stop_load \<notin> set ts0 \<Longrightarrow> j < length ts \<Longrightarrow> \<not> is_Stop (ts ! j)"
    and win: "Stop_load \<notin> set ts0 \<Longrightarrow> connOnce (proc s) \<noteq> OnceFresh \<Longrightarrow>
        \<exists>j < length ts0. \<exists>c. ts0 ! j = InjectConn_once c \<and> InjectConn_won (ts ! j)"
    by (simp_all add: once_inv_def)
  show ?thesis
  proof (cases l)
    case (ChildExit e)
    with st c have c': "c' = (s\<lparr> child := Exited (os_error e) \<rparr>, ts)"
      by (auto split: if_splits)
    from inv c show ?thesis unfolding c' by (simp add: once_inv_def)
  next
    case (Run i r)
    with st c obtain s' t' new where
      t: "tstep i r s (ts ! i) = Some (s', t', new)" and c': "c' = (s', ts[i := t'] @ new)"
      and i: "i < length ts"
      by (auto split: if_splits option.splits)
    note lt = loc [OF i]
    from lt have a: "in_Do (ts ! i) \<longrightarrow> connOnce (proc s) = OnceRunning"
      and b: "before_close (ts ! i) \<longrightarrow> \<not> ch_closed (connCh (proc s))"
      by (simp_all add: once_local_def)
    from g have cap: "ch_cap (connCh (proc s)) = 1"
      and fr: "connOnce (proc s) = OnceFresh \<longrightarrow>
           \<not> ch_closed (connCh (proc s)) \<and> ch_len (connCh (proc s)) = 0 \<and> sends s = 0"
      by (simp_all add: once_global_def)
    note m = once_moves [OF t a b]
    note n = once_local_next [OF t lt fr cap]
    have new: "\<And>x. x \<in> set new \<Longrightarrow> x = Go_awaitConn" using m by blast
    have excl: "\<not> (in_Do (ts ! i) \<and> in_Do (ts ! j))" if "j < length ts" "j \<noteq> i" for j
    proof
      assume "in_Do (ts ! i) \<and> in_Do (ts ! j)"
      with cnt_two [OF i that(1), of in_Do] that(2) have "2 \<le> cnt in_Do ts" by auto
      with cn show False by (simp split: if_splits)
    qed
    have G: "once_global s'" by (rule once_global_next [OF t g lt])
    have L: "length ts0 \<le> length (ts[i := t'] @ new)" using len by simp
    have "cnt in_Do new = 0"
    proof (rule cnt_none)
      fix x assume "x \<in> set new"
      then have "x = Go_awaitConn" by (rule new)
      then show "\<not> in_Do x" by simp
    qed
    moreover from m have "(if in_Do t' then 1 else 0) + (if connOnce (proc s) = OnceRunning then 1 else 0)
           = (if in_Do (ts ! i) then 1 else 0)
             + (if connOnce (proc s') = OnceRunning then 1::nat else 0)" by blast
    ultimately
    have C: "cnt in_Do (ts[i := t'] @ new) = (if connOnce (proc s') = OnceRunning then 1 else 0)"
      using cnt_update [OF i, of in_Do t'] cn by (simp split: if_splits)
    have "cnt InjectConn_won new = 0"
    proof (rule cnt_none)
      fix x assume "x \<in> set new"
      then have "x = Go_awaitConn" by (rule new)
      then show "\<not> InjectConn_won x" by simp
    qed
    moreover have "cnt InjectConn_won (ts[i := t'])
        \<le> (if connOnce (proc s') = OnceFresh then 0 else 1)"
    proof (cases "InjectConn_won t' \<and> \<not> InjectConn_won (ts ! i)")
      case True
      with n have "connOnce (proc s) = OnceFresh" by blast
      with cw have "cnt InjectConn_won ts = 0" by simp
      with cnt_update [OF i, of InjectConn_won t'] True
      have "cnt InjectConn_won (ts[i := t']) = 1" by simp
      moreover from True n have "connOnce (proc s') \<noteq> OnceFresh"
        by (auto simp: once_local_def)
      ultimately show ?thesis by simp
    next
      case False
      with n have "InjectConn_won t' = InjectConn_won (ts ! i)" by blast
      with cnt_update [OF i, of InjectConn_won t']
      have "cnt InjectConn_won (ts[i := t']) = cnt InjectConn_won ts" by simp
      moreover from m have "connOnce (proc s') = OnceFresh \<longrightarrow> connOnce (proc s) = OnceFresh"
        by auto
      ultimately show ?thesis using cw by (simp split: if_splits)
    qed
    ultimately
    have CW: "cnt InjectConn_won (ts[i := t'] @ new)
        \<le> (if connOnce (proc s') = OnceFresh then 0 else 1)" by simp
    have LOC: "once_local s' ((ts[i := t'] @ new) ! j)" if "j < length (ts[i := t'] @ new)" for j
      using i that
    proof (cases rule: nth_run)
      case 1
      with n show ?thesis by simp
    next
      case 2
      with once_local_stable [OF t lt loc [OF 2(2)] excl [OF 2(2,1)]] show ?thesis by simp
    next
      case 3
      with new have "(ts[i := t'] @ new) ! j = Go_awaitConn" by blast
      then show ?thesis by (simp add: once_local_def)
    qed
    have CALL: "j < length ts0 \<and> ts0 ! j = (ts[i := t'] @ new) ! j"
      if "j < length (ts[i := t'] @ new)" "is_call ((ts[i := t'] @ new) ! j)" for j
      using i that(1)
    proof (cases rule: nth_run)
      case 1
      with n that(2) show ?thesis by simp
    next
      case 2
      with call [OF 2(2)] that(2) show ?thesis by simp
    next
      case 3
      with new have "(ts[i := t'] @ new) ! j = Go_awaitConn" by blast
      with that(2) show ?thesis by simp
    qed
    have REL: "inj_rel s' (ts0 ! j) ((ts[i := t'] @ new) ! j)" if "j < length ts0" for j
    proof -
      from that len have j: "j < length ts" by simp
      then have "j < length (ts[i := t'] @ new)" by simp
      with i show ?thesis
      proof (cases rule: nth_run)
        case 1
        from call [OF i] 1 have "is_call (ts ! i) \<longrightarrow> ts0 ! j = ts ! i" by simp
        from inj_rel_next [OF t _ b this] rel [OF that] 1 show ?thesis by simp
      next
        case 2
        with inj_rel_stable [OF t lt loc [OF 2(2)] excl [OF 2(2,1)] rel [OF that]]
        show ?thesis by simp
      next
        case 3
        with j show ?thesis by simp
      qed
    qed
    have NOSTOP: "\<not> is_Stop ((ts[i := t'] @ new) ! j)"
      if "Stop_load \<notin> set ts0" "j < length (ts[i := t'] @ new)" for j
      using i that(2)
    proof (cases rule: nth_run)
      case 1
      with n nostop [OF that(1) i] show ?thesis by auto
    next
      case 2
      with nostop [OF that(1) 2(2)] show ?thesis by simp
    next
      case 3
      with new have "(ts[i := t'] @ new) ! j = Go_awaitConn" by blast
      then show ?thesis by simp
    qed
    have WIN: "\<exists>j < length ts0. \<exists>c. ts0 ! j = InjectConn_once c
          \<and> InjectConn_won ((ts[i := t'] @ new) ! j)"
      if ns: "Stop_load \<notin> set ts0" and nf: "connOnce (proc s') \<noteq> OnceFresh"
    proof (cases "connOnce (proc s) = OnceFresh")
      case True
      with n nf nostop [OF ns i] have w: "InjectConn_won t'" by blast
      from True lt have "\<not> InjectConn_won (ts ! i)" by (auto simp: once_local_def)
      with w n obtain c where ci: "ts ! i = InjectConn_once c" by blast
      with call [OF i] have "i < length ts0" "ts0 ! i = InjectConn_once c" by simp_all
      moreover from i w have "InjectConn_won ((ts[i := t'] @ new) ! i)"
        by (simp add: nth_append)
      ultimately show ?thesis by blast
    next
      case False
      from win [OF ns False] obtain j c where j: "j < length ts0"
        and cj: "ts0 ! j = InjectConn_once c" and w: "InjectConn_won (ts ! j)" by blast
      from j len have jl: "j < length ts" by simp
      have "InjectConn_won ((ts[i := t'] @ new) ! j)"
      proof (cases "j = i")
        case True
        with w n i show ?thesis by (simp add: nth_append)
      next
        case False
        with w jl show ?thesis by (simp add: nth_append)
      qed
      with j cj show ?thesis by blast
    qed
    show ?thesis unfolding c' once_inv_def case_prod_conv
    proof (intro conjI allI impI)
      show "once_global s'" by (rule G)
      show "length ts0 \<le> length (ts[i := t'] @ new)" by (rule L)
      show "cnt in_Do (ts[i := t'] @ new) = (if connOnce (proc s') = OnceRunning then 1 else 0)"
        by (rule C)
      show "cnt InjectConn_won (ts[i := t'] @ new)
        \<le> (if connOnce (proc s') = OnceFresh then 0 else 1)" by (rule CW)
    next
      fix j assume "j < length (ts[i := t'] @ new)"
      then show "once_local s' ((ts[i := t'] @ new) ! j)" by (rule LOC)
    next
      fix j assume "j < length (ts[i := t'] @ new)" "is_call ((ts[i := t'] @ new) ! j)"
      then show "j < length ts0" "ts0 ! j = (ts[i := t'] @ new) ! j" using CALL by blast+
    next
      fix j assume "j < length ts0"
      then show "inj_rel s' (ts0 ! j) ((ts[i := t'] @ new) ! j)" by (rule REL)
    next
      fix j assume "Stop_load \<notin> set ts0" "j < length (ts[i := t'] @ new)"
      then show "\<not> is_Stop ((ts[i := t'] @ new) ! j)" by (rule NOSTOP)
    next
      assume "Stop_load \<notin> set ts0 \<and> connOnce (proc s') \<noteq> OnceFresh"
      then show "\<exists>j<length ts0. \<exists>c. ts0 ! j = InjectConn_once c
          \<and> InjectConn_won ((ts[i := t'] @ new) ! j)" using WIN by blast
    qed
  qed
qed


lemma once_inv_exec: "once_inv ts0 c \<Longrightarrow> once_inv ts0 (exec ls c)"
proof (induction ls arbitrary: c)
  case Nil
  then show ?case by simp
next
  case (Cons l ls)
  show ?case
  proof (cases "step l c")
    case None
    with Cons show ?thesis by simp
  next
    case (Some c')
    with Cons.prems have "once_inv ts0 c'" by (rule once_inv_step)
    with Cons.IH Some show ?thesis by simp
  qed
qed

lemma is_call_facts:
  "is_call t \<Longrightarrow> \<not> in_Do t \<and> \<not> InjectConn_won t \<and> (is_Stop t \<longrightarrow> t = Stop_load)
     \<and> once_local s t \<and> inj_rel s t t"
  by (cases t) (simp_all add: once_local_def)

lemma once_inv_init:
  assumes "list_all is_call ts"
  shows "once_inv ts (init ts)"
proof -
  from assms have f: "\<And>j. j < length ts \<Longrightarrow> is_call (ts ! j)" by (simp add: list_all_length)
  have 1: "cnt in_Do ts = 0" "cnt InjectConn_won ts = 0"
    using assms is_call_facts by (auto intro!: cnt_none simp: list_all_iff)
  have 2: "\<not> is_Stop (ts ! j)" if "Stop_load \<notin> set ts" "j < length ts" for j
  proof
    assume "is_Stop (ts ! j)"
    with is_call_facts [OF f [OF that(2)]] have "ts ! j = Stop_load" by blast
    with that show False by (metis nth_mem)
  qed
  show ?thesis
    using 1 2 f is_call_facts
    by (simp add: once_inv_def init_def NewProc_def once_global_def chan_fault_def
          sends_def closes_def order_ok_def)
qed


subsection \<open>Who has used the once: the invariant\<close>


lemma once_done_by:
  assumes "tstep i r s t = Some (s', t', new)"
    and "connOnce (proc s') = OnceDone" and "connOnce (proc s) \<noteq> OnceDone"
  shows "after_close t"
  using assms
  by (cases t) (auto simp: prims' split: if_splits option.splits once.splits child.splits)

lemma won_facts:
  "t = InjectConn_send \<Longrightarrow> InjectConn_won t"
  "t = InjectConn_store c \<Longrightarrow> InjectConn_won t"
  "is_Stop t \<Longrightarrow> \<not> InjectConn_won t \<and> t \<noteq> InjectConn_send \<and> (\<forall>c. t \<noteq> InjectConn_store c)"
  by (cases t; simp)+

lemma once_used_step:
  assumes inv: "once_inv ts0 c" and used: "once_used ts0 c" and st: "step l c = Some c'"
  shows "once_used ts0 c'"
proof -
  obtain s ts where c: "c = (s, ts)" by (cases c)
  from inv c have g: "once_global s" and len: "length ts0 \<le> length ts"
    and cw: "cnt InjectConn_won ts \<le> (if connOnce (proc s) = OnceFresh then 0 else 1)"
    and loc: "\<And>j. j < length ts \<Longrightarrow> once_local s (ts ! j)"
    and call: "\<And>j. j < length ts \<Longrightarrow> is_call (ts ! j) \<Longrightarrow> j < length ts0 \<and> ts0 ! j = ts ! j"
    and nostop: "\<And>j. Stop_load \<notin> set ts0 \<Longrightarrow> j < length ts \<Longrightarrow> \<not> is_Stop (ts ! j)"
    by (simp_all add: once_inv_def)
  from used c
  have f0: "connOnce (proc s) = OnceFresh \<Longrightarrow> conn (proc s) = None \<and> rpcGW (proc s) = None"
    and d0: "connOnce (proc s) = OnceDone \<Longrightarrow> ch_closed (connCh (proc s))"
    and w0: "connOnce (proc s) \<noteq> OnceFresh \<Longrightarrow>
             (\<exists>j < length ts0. \<exists>c. ts0 ! j = InjectConn_once c \<and> InjectConn_won (ts ! j))
             \<or> (Stop_load \<in> set ts0 \<and> cnt InjectConn_won ts = 0 \<and> sends s = 0
                 \<and> conn (proc s) = None \<and> rpcGW (proc s) = None)"
    by (simp_all add: once_used_def)
  show ?thesis
  proof (cases l)
    case (ChildExit e)
    with st c have c': "c' = (s\<lparr> child := Exited (os_error e) \<rparr>, ts)"
      by (auto split: if_splits)
    from used c show ?thesis unfolding c' by (simp add: once_used_def)
  next
    case (Run i r)
    with st c obtain s' t' new where
      t: "tstep i r s (ts ! i) = Some (s', t', new)" and c': "c' = (s', ts[i := t'] @ new)"
      and i: "i < length ts"
      by (auto split: if_splits option.splits)
    note lt = loc [OF i]
    from lt have a: "in_Do (ts ! i) \<longrightarrow> connOnce (proc s) = OnceRunning"
      and b: "before_close (ts ! i) \<longrightarrow> \<not> ch_closed (connCh (proc s))"
      and ac: "after_close (ts ! i) \<longrightarrow> ch_closed (connCh (proc s))"
      and wf: "InjectConn_won (ts ! i) \<longrightarrow> connOnce (proc s) \<noteq> OnceFresh"
      by (simp_all add: once_local_def)
    from g have cap: "ch_cap (connCh (proc s)) = 1"
      and fr: "connOnce (proc s) = OnceFresh \<longrightarrow>
           \<not> ch_closed (connCh (proc s)) \<and> ch_len (connCh (proc s)) = 0 \<and> sends s = 0"
      by (simp_all add: once_global_def)
    note m = once_moves [OF t a b]
    note n = once_local_next [OF t lt fr cap]
    note ch = once_chan [OF t]
    from m have tr: "connOnce (proc s') = connOnce (proc s)
           \<or> (connOnce (proc s) = OnceFresh \<and> connOnce (proc s') = OnceRunning \<and> in_Do t')
           \<or> (connOnce (proc s) = OnceRunning \<and> connOnce (proc s') = OnceDone \<and> in_Do (ts ! i))"
      by blast
    have new: "\<And>x. x \<in> set new \<Longrightarrow> x = Go_awaitConn" using m by blast
    have cn0: "cnt InjectConn_won new = 0"
    proof (rule cnt_none)
      fix x assume "x \<in> set new"
      then have "x = Go_awaitConn" by (rule new)
      then show "\<not> InjectConn_won x" by simp
    qed
    have same: "sends s' = sends s \<and> conn (proc s') = conn (proc s)
        \<and> rpcGW (proc s') = rpcGW (proc s)" if "\<not> InjectConn_won (ts ! i)"
    proof -
      from that have "ts ! i \<noteq> InjectConn_send" "\<forall>c. ts ! i \<noteq> InjectConn_store c"
        using won_facts(1,2) by blast+
      with ch(5,6) show ?thesis by auto
    qed
    have F: "conn (proc s') = None \<and> rpcGW (proc s') = None" if x: "connOnce (proc s') = OnceFresh"
    proof -
      from x tr have y: "connOnce (proc s) = OnceFresh" by auto
      with wf have "\<not> InjectConn_won (ts ! i)" by auto
      with same f0 [OF y] show ?thesis by simp
    qed
    have D: "ch_closed (connCh (proc s'))" if x: "connOnce (proc s') = OnceDone"
    proof (cases "connOnce (proc s) = OnceDone")
      case True
      with d0 ch(1) show ?thesis by blast
    next
      case False
      from once_done_by [OF t x False] ac ch(1) show ?thesis by blast
    qed
    have W: "(\<exists>j < length ts0. \<exists>c. ts0 ! j = InjectConn_once c
                \<and> InjectConn_won ((ts[i := t'] @ new) ! j))
             \<or> (Stop_load \<in> set ts0 \<and> cnt InjectConn_won (ts[i := t'] @ new) = 0 \<and> sends s' = 0
                 \<and> conn (proc s') = None \<and> rpcGW (proc s') = None)"
      if nf: "connOnce (proc s') \<noteq> OnceFresh"
    proof (cases "connOnce (proc s) = OnceFresh")
      case True
      with wf have nw: "\<not> InjectConn_won (ts ! i)" by auto
      from True cw have z: "cnt InjectConn_won ts = 0" by simp
      show ?thesis
      proof (cases "InjectConn_won t'")
        case True
        with nw n obtain c where ci: "ts ! i = InjectConn_once c" by blast
        with call [OF i] have "i < length ts0" "ts0 ! i = InjectConn_once c" by simp_all
        moreover from i True have "InjectConn_won ((ts[i := t'] @ new) ! i)"
          by (simp add: nth_append)
        ultimately show ?thesis by blast
      next
        case False
        with n nf \<open>connOnce (proc s) = OnceFresh\<close> have "is_Stop (ts ! i)" by blast
        with nostop [OF _ i] have "Stop_load \<in> set ts0" by blast
        moreover from cnt_update [OF i, of InjectConn_won t'] z nw False cn0
        have "cnt InjectConn_won (ts[i := t'] @ new) = 0" by simp
        moreover from same [OF nw] fr f0 \<open>connOnce (proc s) = OnceFresh\<close>
        have "sends s' = 0 \<and> conn (proc s') = None \<and> rpcGW (proc s') = None" by simp
        ultimately show ?thesis by blast
      qed
    next
      case False
      from w0 [OF False] show ?thesis
      proof
        assume "\<exists>j < length ts0. \<exists>c. ts0 ! j = InjectConn_once c \<and> InjectConn_won (ts ! j)"
        then obtain j c where j: "j < length ts0"
          and cj: "ts0 ! j = InjectConn_once c" and w: "InjectConn_won (ts ! j)" by blast
        from j len have jl: "j < length ts" by simp
        have "InjectConn_won ((ts[i := t'] @ new) ! j)"
        proof (cases "j = i")
          case True
          with w n i show ?thesis by (simp add: nth_append)
        next
          case False
          with w jl show ?thesis by (simp add: nth_append)
        qed
        with j cj show ?thesis by blast
      next
        assume sw: "Stop_load \<in> set ts0 \<and> cnt InjectConn_won ts = 0 \<and> sends s = 0
                 \<and> conn (proc s) = None \<and> rpcGW (proc s) = None"
        then have nw: "\<not> InjectConn_won (ts ! i)" using cnt_zero [OF _ i] by blast
        with n False have nw': "\<not> InjectConn_won t'" by blast
        from cnt_update [OF i, of InjectConn_won t'] sw nw nw' cn0
        have "cnt InjectConn_won (ts[i := t'] @ new) = 0" by simp
        with same [OF nw] sw show ?thesis by simp
      qed
    qed
    show ?thesis unfolding c' once_used_def case_prod_conv
    proof (intro conjI impI)
      assume "connOnce (proc s') = OnceFresh"
      then show "conn (proc s') = None" "rpcGW (proc s') = None" using F by blast+
    next
      assume "connOnce (proc s') = OnceDone"
      then show "ch_closed (connCh (proc s'))" by (rule D)
    next
      assume "connOnce (proc s') \<noteq> OnceFresh"
      then show "(\<exists>j < length ts0. \<exists>c. ts0 ! j = InjectConn_once c
                \<and> InjectConn_won ((ts[i := t'] @ new) ! j))
             \<or> (Stop_load \<in> set ts0 \<and> cnt InjectConn_won (ts[i := t'] @ new) = 0 \<and> sends s' = 0
                 \<and> conn (proc s') = None \<and> rpcGW (proc s') = None)" by (rule W)
    qed
  qed
qed




subsection \<open>Blocked threads\<close>


lemma cnt_pos: "0 < cnt P xs \<Longrightarrow> \<exists>i < length xs. P (xs ! i)"
proof (induction xs)
  case Nil
  then show ?case by simp
next
  case (Cons x xs)
  show ?case
  proof (cases "P x")
    case True
    then show ?thesis by (intro exI [of _ 0]) simp
  next
    case False
    with Cons obtain i where "i < length xs" "P (xs ! i)" by auto
    then show ?thesis by (intro exI [of _ "Suc i"]) simp
  qed
qed

text \<open>Where a thread can block.\<close>

lemma blocked:
  assumes "tstep i r s t = None"
  shows "(\<exists>e. t = Start_ret e) \<or> t = Go_ret_killed \<or> t = Go_ret \<or> (\<exists>e. t = Stop_ret e)
       \<or> (\<exists>e. t = Wait_ret e) \<or> (\<exists>b. t = InjectConn_ret b) \<or> (\<exists>b. t = IsRunning_ret b)
       \<or> t = Panicked
       \<or> ((t = Start_Lock \<or> t = Stop_Lock \<or> t = Wait_Lock) \<and> waitMx (proc s))
       \<or> ((t = Stop_once \<or> (\<exists>c. t = InjectConn_once c)) \<and> connOnce (proc s) = OnceRunning)
       \<or> (t = InjectConn_send \<and> \<not> ch_closed (connCh (proc s))
           \<and> \<not> ch_len (connCh (proc s)) < ch_cap (connCh (proc s)))
       \<or> (t = Go_awaitConn \<and> ch_len (connCh (proc s)) = 0 \<and> \<not> ch_closed (connCh (proc s)))
       \<or> (t = Go_cmd_Wait \<and> (\<forall>e. child s \<noteq> Exited e))"
  using assms
  by (cases t) (auto simp: prims' split: if_splits option.splits once.splits child.splits)

lemma tstep_enabled: "(tstep i r s t = None) = (tstep 0 None s t = None)"
  by (cases t) (auto simp: prims' split: if_splits option.splits once.splits child.splits)

text \<open>Quiescent: no label is enabled.\<close>

lemma quiescent_iff: "quiescent c = (\<forall>l. step l c = None)"
proof -
  obtain s ts where c: "c = (s, ts)" by (cases c)
  show ?thesis
  proof
    assume q: "quiescent c"
    show "\<forall>l. step l c = None"
    proof
      fix l
      show "step l c = None"
      proof (cases l)
        case (ChildExit e)
        with q c show ?thesis by (auto simp: quiescent_def)
      next
        case (Run i r)
        show ?thesis
        proof (cases "fault s = None \<and> i < length ts")
          case True
          with q c have "tstep 0 None s (ts ! i) = None"
            by (simp add: quiescent_def list_all_length)
          then have "tstep i r s (ts ! i) = None" using tstep_enabled by blast
          with Run c show ?thesis by simp
        next
          case False
          with Run c show ?thesis by auto
        qed
      qed
    qed
  next
    assume a: "\<forall>l. step l c = None"
    show "quiescent c"
    proof (cases "fault s = None")
      case False
      with c show ?thesis by (simp add: quiescent_def)
    next
      case True
      from a c have "step (ChildExit None) (s, ts) = None" by blast
      with True have na: "child s \<noteq> Alive" by (simp split: if_splits)
      have "tstep 0 None s (ts ! i) = None" if i: "i < length ts" for i
      proof -
        from a c have "step (Run i None) (s, ts) = None" by blast
        with True i have "tstep i None s (ts ! i) = None"
          by (auto split: option.splits prod.splits)
        then show ?thesis using tstep_enabled by blast
      qed
      with na c show ?thesis by (simp add: quiescent_def list_all_length)
    qed
  qed
qed

lemma quiescent_tstep:
  assumes "quiescent (s, ts)" and "fault s = None" and "i < length ts"
  shows "tstep i r s (ts ! i) = None"
proof -
  from assms(1) have "step (Run i r) (s, ts) = None" by (simp add: quiescent_iff)
  with assms(2,3) show ?thesis by (auto split: option.splits prod.splits)
qed

lemma quiescent_no_Do:
  assumes inv: "once_inv ts0 (s, ts)" and q: "quiescent (s, ts)" and f: "fault s = None"
  shows "connOnce (proc s) \<noteq> OnceRunning"
proof
  assume run: "connOnce (proc s) = OnceRunning"
  from inv have g: "once_global s"
    and cn: "cnt in_Do ts = (if connOnce (proc s) = OnceRunning then 1 else 0)"
    and loc: "\<And>j. j < length ts \<Longrightarrow> once_local s (ts ! j)"
    by (simp_all add: once_inv_def)
  from cn run have "0 < cnt in_Do ts" by simp
  then obtain k where k: "k < length ts" and d: "in_Do (ts ! k)" using cnt_pos by blast
  from blocked [OF quiescent_tstep [OF q f k, of None]] d
  have "ts ! k = InjectConn_send" and full: "\<not> ch_len (connCh (proc s)) < ch_cap (connCh (proc s))"
    by auto
  with loc [OF k] have "ch_len (connCh (proc s)) = 0" by (simp add: once_local_def)
  moreover from g have "ch_cap (connCh (proc s)) = 1" by (simp add: once_global_def)
  ultimately show False using full by simp
qed

lemma quiescent_InjectConn:
  assumes inv: "once_inv ts0 (s, ts)" and q: "quiescent (s, ts)" and f: "fault s = None"
    and j: "j < length ts0" and cj: "ts0 ! j = InjectConn_once c"
  shows "\<exists>b. ts ! j = InjectConn_ret b"
proof -
  from inv have len: "length ts0 \<le> length ts"
    and loc: "\<And>j. j < length ts \<Longrightarrow> once_local s (ts ! j)"
    and rel: "\<And>j. j < length ts0 \<Longrightarrow> inj_rel s (ts0 ! j) (ts ! j)"
    by (simp_all add: once_inv_def)
  from j len have jl: "j < length ts" by simp
  note nr = quiescent_no_Do [OF inv q f]
  from loc [OF jl] nr have nd: "\<not> in_Do (ts ! j)" by (auto simp: once_local_def)
  from blocked [OF quiescent_tstep [OF q f jl, of None]] nr
  have no: "ts ! j \<noteq> InjectConn_once c" by auto
  from rel [OF j] cj no nd show ?thesis by (cases "ts ! j") auto
qed



subsection \<open>The channel is closed once\<close>

text \<open>
  C9. Any calls (\<^verbatim>\<open>Start\<close>, \<^verbatim>\<open>InjectConn\<close>, \<^verbatim>\<open>Stop\<close>, \<^verbatim>\<open>Wait\<close>,
  \<^verbatim>\<open>IsRunning\<close>) are made on a fresh supervisor, in any interleaving with each
  other, with the goroutine and with the exit of the child. The program never panics by
  closing the closed channel or by sending on the closed channel; the trace holds at most
  one close and at most one send, and no send after a close.
\<close>

theorem connCh_closed_once:
  assumes "list_all is_call ts"
  shows "case exec ls (init ts) of (s, ts') \<Rightarrow>
           fault s \<noteq> Some CloseOfClosedChannel \<and> fault s \<noteq> Some SendOnClosedChannel
           \<and> closes s \<le> 1 \<and> sends s \<le> 1 \<and> no_send_after_close (map snd (trace s))"
proof -
  obtain s ts' where e: "exec ls (init ts) = (s, ts')" by (cases "exec ls (init ts)")
  from once_inv_exec [OF once_inv_init [OF assms], of ls] e
  have "once_global s" by (simp add: once_inv_def)
  then show ?thesis unfolding e
    by (simp add: once_global_def chan_fault_def order_ok_def)
qed

text \<open>
  Two runs of one \<^verbatim>\<open>Start\<close>, one \<^verbatim>\<open>InjectConn\<close> and two \<^verbatim>\<open>Stop\<close>. In the
  first, a \<^verbatim>\<open>Stop\<close> that races with \<^verbatim>\<open>Start\<close> takes the mutex first and closes the
  channel; \<^verbatim>\<open>InjectConn\<close> then returns false and the goroutine kills the child. In
  the second, \<^verbatim>\<open>InjectConn\<close> sends and closes, and both \<^verbatim>\<open>Stop\<close> find the once
  done.
\<close>

theorem connCh_closed_once_witness:
  "list_all is_call [Start_cas, InjectConn_once 7, Stop_load, Stop_load]
   \<and> (case exec [Run 0 None, Run 2 None, Run 2 None, Run 2 None, Run 2 None, Run 2 None,
                 Run 2 None, Run 2 None,
                 Run 0 None, Run 0 None, Run 0 None,
                 Run 1 None, Run 1 None, Run 1 None, Run 1 None, Run 1 None,
                 Run 3 None, Run 3 None, Run 4 None, Run 4 None, Run 4 None,
                 Run 3 None, Run 3 None, Run 3 None]
            (init [Start_cas, InjectConn_once 7, Stop_load, Stop_load])
      of (s, ts') \<Rightarrow>
        ts' = [Start_ret None, InjectConn_ret False, Stop_ret None, Stop_ret None,
               Go_ret_killed]
        \<and> fault s = None \<and> closes s = 1 \<and> sends s = 0)
   \<and> (case exec [Run 0 None, Run 0 None, Run 0 None, Run 0 None,
                 Run 1 None, Run 1 None, Run 1 None, Run 1 None, Run 1 None,
                 Run 2 None, Run 2 None, ChildExit None,
                 Run 4 None, Run 4 None, Run 4 None, Run 4 None, Run 4 None, Run 4 None,
                 Run 4 None, Run 4 None, Run 4 None,
                 Run 2 None, Run 2 None, Run 2 None,
                 Run 3 None, Run 3 None, Run 3 None, Run 3 None, Run 3 None]
            (init [Start_cas, InjectConn_once 7, Stop_load, Stop_load])
      of (s, ts') \<Rightarrow>
        ts' = [Start_ret None, InjectConn_ret True, Stop_ret None, Stop_ret None, Go_ret]
        \<and> fault s = None \<and> closes s = 1 \<and> sends s = 1)"
proof -
  have h: "list_all is_call [Start_cas, InjectConn_once 7, Stop_load, Stop_load]" by simp
  from connCh_closed_once [OF h, of "[Run 0 None, Run 2 None, Run 2 None, Run 2 None,
                 Run 2 None, Run 2 None, Run 2 None, Run 2 None,
                 Run 0 None, Run 0 None, Run 0 None,
                 Run 1 None, Run 1 None, Run 1 None, Run 1 None, Run 1 None,
                 Run 3 None, Run 3 None, Run 4 None, Run 4 None, Run 4 None,
                 Run 3 None, Run 3 None, Run 3 None]"]
  show ?thesis
    by (simp add: init_def NewProc_def prims close_unexpected_def sends_def closes_def)
qed



subsection \<open>Concurrent calls of InjectConn\<close>





subsection \<open>The compare-and-swap of Start: the invariant\<close>


lemma cas_next:
  assumes "tstep i r s t = Some (s', t', new)" and "cas_local s t"
    and "isRunning (proc s) = 0 \<or> isRunning (proc s) = 1"
  shows "(isRunning (proc s') = 0 \<or> isRunning (proc s') = 1)"
    and "cas_local s' t'"
    and "t' \<noteq> Start_cas \<and> t \<noteq> Panicked \<and> (\<forall>n \<in> set new. n = Go_awaitConn)"
    and "Start_won t \<longrightarrow> Start_won t' \<or> t' = Panicked"
    and "Start_won t' \<and> \<not> Start_won t \<longrightarrow>
           t = Start_cas \<and> isRunning (proc s) = 0 \<and> isRunning (proc s') = 1"
    and "isRunning (proc s') = isRunning (proc s)
         \<or> (t = Start_cas \<and> isRunning (proc s) = 0 \<and> isRunning (proc s') = 1 \<and> Start_won t')"
  using assms
  by (cases t;
      auto simp: cas_local_def prims'
           split: if_splits option.splits once.splits child.splits error.splits)+

lemma cas_local_stable:
  assumes "tstep i r s t = Some (s', t', new)" and "cas_local s u"
  shows "cas_local s' u"
proof -
  from tstep_isRunning [OF assms(1)] have "isRunning (proc s) \<noteq> 0 \<longrightarrow> isRunning (proc s') \<noteq> 0"
    by auto
  with assms(2) show ?thesis by (simp add: cas_local_def)
qed

lemma cas_child [simp]: "cas_local (s\<lparr> child := x \<rparr>) t = cas_local s t"
  by (simp add: cas_local_def)

lemma cas_inv_step:
  assumes inv: "cas_inv ts0 c" and st: "step l c = Some c'"
  shows "cas_inv ts0 c'"
proof -
  obtain s ts where c: "c = (s, ts)" by (cases c)
  from inv c have r01: "isRunning (proc s) = 0 \<or> isRunning (proc s) = 1"
    and len: "length ts0 \<le> length ts"
    and cw: "cnt Start_won ts \<le> (if isRunning (proc s) = 0 then 0 else 1)"
    and loc: "\<And>j. j < length ts \<Longrightarrow> cas_local s (ts ! j)"
    and call: "\<And>j. j < length ts \<Longrightarrow> ts ! j = Start_cas \<Longrightarrow> j < length ts0 \<and> ts0 ! j = Start_cas"
    and win: "isRunning (proc s) \<noteq> 0 \<Longrightarrow>
        \<exists>j < length ts0. ts0 ! j = Start_cas \<and> (Start_won (ts ! j) \<or> ts ! j = Panicked)"
    by (simp_all add: cas_inv_def)
  show ?thesis
  proof (cases l)
    case (ChildExit e)
    with st c have c': "c' = (s\<lparr> child := Exited (os_error e) \<rparr>, ts)"
      by (auto split: if_splits)
    from inv c show ?thesis unfolding c' by (simp add: cas_inv_def)
  next
    case (Run i r)
    with st c obtain s' t' new where
      t: "tstep i r s (ts ! i) = Some (s', t', new)" and c': "c' = (s', ts[i := t'] @ new)"
      and i: "i < length ts"
      by (auto split: if_splits option.splits)
    note n = cas_next [OF t loc [OF i] r01]
    have new: "\<And>x. x \<in> set new \<Longrightarrow> x = Go_awaitConn" using n(3) by blast
    have R: "isRunning (proc s') = 0 \<or> isRunning (proc s') = 1" by (rule n(1))
    have L: "length ts0 \<le> length (ts[i := t'] @ new)" using len by simp
    have "cnt Start_won new = 0"
    proof (rule cnt_none)
      fix x assume "x \<in> set new"
      then have "x = Go_awaitConn" by (rule new)
      then show "\<not> Start_won x" by simp
    qed
    moreover have "cnt Start_won (ts[i := t']) \<le> (if isRunning (proc s') = 0 then 0 else 1)"
    proof (cases "Start_won t' \<and> \<not> Start_won (ts ! i)")
      case True
      with n(5) have z: "ts ! i = Start_cas" "isRunning (proc s) = 0" "isRunning (proc s') = 1"
        by blast+
      with cw have "cnt Start_won ts = 0" by simp
      with cnt_update [OF i, of Start_won t'] True
      have "cnt Start_won (ts[i := t']) = 1" by simp
      then show ?thesis using z by simp
    next
      case False
      with n(6) have same: "isRunning (proc s') = isRunning (proc s)" by auto
      from False cnt_update [OF i, of Start_won t']
      have "cnt Start_won (ts[i := t']) \<le> cnt Start_won ts" by (auto split: if_splits)
      with cw same show ?thesis by (simp split: if_splits)
    qed
    ultimately
    have CW: "cnt Start_won (ts[i := t'] @ new) \<le> (if isRunning (proc s') = 0 then 0 else 1)"
      by simp
    have LOC: "cas_local s' ((ts[i := t'] @ new) ! j)" if "j < length (ts[i := t'] @ new)" for j
      using i that
    proof (cases rule: nth_run)
      case 1
      with n(2) show ?thesis by simp
    next
      case 2
      with cas_local_stable [OF t loc [OF 2(2)]] show ?thesis by simp
    next
      case 3
      with new have "(ts[i := t'] @ new) ! j = Go_awaitConn" by blast
      then show ?thesis by (simp add: cas_local_def)
    qed
    have CALL: "j < length ts0 \<and> ts0 ! j = Start_cas"
      if "j < length (ts[i := t'] @ new)" "(ts[i := t'] @ new) ! j = Start_cas" for j
      using i that(1)
    proof (cases rule: nth_run)
      case 1
      with n(3) that(2) show ?thesis by simp
    next
      case 2
      with call [OF 2(2)] that(2) show ?thesis by simp
    next
      case 3
      with new have "(ts[i := t'] @ new) ! j = Go_awaitConn" by blast
      with that(2) show ?thesis by simp
    qed
    have WIN: "\<exists>j < length ts0. ts0 ! j = Start_cas
          \<and> (Start_won ((ts[i := t'] @ new) ! j) \<or> (ts[i := t'] @ new) ! j = Panicked)"
      if nz: "isRunning (proc s') \<noteq> 0"
    proof (cases "isRunning (proc s) = 0")
      case True
      with n(6) nz have z: "ts ! i = Start_cas" "Start_won t'" by auto
      with call [OF i] have "i < length ts0" "ts0 ! i = Start_cas" by simp_all
      moreover from i z have "Start_won ((ts[i := t'] @ new) ! i)" by (simp add: nth_append)
      ultimately show ?thesis by blast
    next
      case False
      from win [OF False] obtain j where j: "j < length ts0" and cj: "ts0 ! j = Start_cas"
        and w: "Start_won (ts ! j) \<or> ts ! j = Panicked" by blast
      from j len have jl: "j < length ts" by simp
      have "Start_won ((ts[i := t'] @ new) ! j) \<or> (ts[i := t'] @ new) ! j = Panicked"
      proof (cases "j = i")
        case True
        with w n(3,4) i show ?thesis by (auto simp: nth_append)
      next
        case False
        with w jl show ?thesis by (simp add: nth_append)
      qed
      with j cj show ?thesis by blast
    qed
    show ?thesis unfolding c' cas_inv_def case_prod_conv
    proof (intro conjI allI impI)
      show "isRunning (proc s') = 0 \<or> isRunning (proc s') = 1" by (rule R)
      show "length ts0 \<le> length (ts[i := t'] @ new)" by (rule L)
      show "cnt Start_won (ts[i := t'] @ new) \<le> (if isRunning (proc s') = 0 then 0 else 1)"
        by (rule CW)
    next
      fix j assume "j < length (ts[i := t'] @ new)"
      then show "cas_local s' ((ts[i := t'] @ new) ! j)" by (rule LOC)
    next
      fix j assume "j < length (ts[i := t'] @ new)" "(ts[i := t'] @ new) ! j = Start_cas"
      then show "j < length ts0" "ts0 ! j = Start_cas" using CALL by blast+
    next
      assume "isRunning (proc s') \<noteq> 0"
      then show "\<exists>j<length ts0. ts0 ! j = Start_cas
          \<and> (Start_won ((ts[i := t'] @ new) ! j) \<or> (ts[i := t'] @ new) ! j = Panicked)"
        by (rule WIN)
    qed
  qed
qed

lemma cas_inv_exec: "cas_inv ts0 c \<Longrightarrow> cas_inv ts0 (exec ls c)"
proof (induction ls arbitrary: c)
  case Nil
  then show ?case by simp
next
  case (Cons l ls)
  show ?case
  proof (cases "step l c")
    case None
    with Cons show ?thesis by simp
  next
    case (Some c')
    with Cons.prems have "cas_inv ts0 c'" by (rule cas_inv_step)
    with Cons.IH Some show ?thesis by simp
  qed
qed

lemma is_call_cas: "is_call t \<Longrightarrow> \<not> Start_won t \<and> cas_local s t"
  by (cases t) (simp_all add: cas_local_def)

lemma cas_inv_init:
  assumes "list_all is_call ts"
  shows "cas_inv ts (init ts)"
proof -
  from assms have f: "\<And>j. j < length ts \<Longrightarrow> is_call (ts ! j)" by (simp add: list_all_length)
  have 1: "cnt Start_won ts = 0"
    using assms is_call_cas by (auto intro!: cnt_none simp: list_all_iff)
  show ?thesis
    using 1 f is_call_cas by (simp add: cas_inv_def init_def NewProc_def)
qed


subsection \<open>What the winner does: the invariant\<close>


lemma tstep_events_other:
  assumes "tstep i r s t = Some (s', t', new)" and "k \<noteq> i"
  shows "events_of k s' = events_of k s"
  using assms
  by (cases t) (auto simp: prims' split: if_splits option.splits once.splits child.splits)

lemma tstep_cmd_Process:
  assumes "tstep i r s t = Some (s', t', new)"
  shows "(cmd_Process (proc s) \<longrightarrow> cmd_Process (proc s'))"
    and "cmd_Process (proc s') \<and> \<not> cmd_Process (proc s) \<longrightarrow> t = Start_cmd_Start"
  using assms
  by (cases t;
      auto simp: prims' split: if_splits option.splits once.splits child.splits)+

lemma spawn_next:
  assumes "tstep j r s t = Some (s', t', new)" and "spawn_local j s t" and "spawn_global s"
    and "cas_local s t"
  shows "spawn_local j s' t'" and "spawn_global s'"
    and "\<forall>n \<in> set new. n = Go_awaitConn \<and> cmd_Process (proc s')"
  using assms
  by (cases t;
      auto simp: spawn_local_def spawn_global_def cas_local_def prims'
           split: if_splits option.splits once.splits child.splits error.splits)+


lemma spawn_child [simp]:
  "spawn_local j (s\<lparr> child := x \<rparr>) t = spawn_local j s t"
  by (simp add: spawn_local_def)

lemma spawn_inv_step:
  assumes cas: "cas_inv ts0 c" and inv: "spawn_inv c" and st: "step l c = Some c'"
  shows "spawn_inv c'"
proof -
  obtain s ts where c: "c = (s, ts)" by (cases c)
  from cas c have cw: "cnt Start_won ts \<le> (if isRunning (proc s) = 0 then 0 else 1)"
    and cloc: "\<And>j. j < length ts \<Longrightarrow> cas_local s (ts ! j)"
    by (simp_all add: cas_inv_def)
  from inv c have g: "spawn_global s" and loc: "\<And>j. j < length ts \<Longrightarrow> spawn_local j s (ts ! j)"
    by (simp_all add: spawn_inv_def)
  show ?thesis
  proof (cases l)
    case (ChildExit e)
    with st c have alive: "child s = Alive" and c': "c' = (s\<lparr> child := Exited (os_error e) \<rparr>, ts)"
      by (auto split: if_splits)
    from g alive have "spawn_global (s\<lparr> child := Exited (os_error e) \<rparr>)"
      by (auto simp: spawn_global_def)
    with loc show ?thesis unfolding c' by (simp add: spawn_inv_def)
  next
    case (Run i r)
    with st c obtain s' t' new where
      t: "tstep i r s (ts ! i) = Some (s', t', new)" and c': "c' = (s', ts[i := t'] @ new)"
      and i: "i < length ts"
      by (auto split: if_splits option.splits)
    note n = spawn_next [OF t loc [OF i] g cloc [OF i]]
    note p = tstep_cmd_Process [OF t]
    from cw have c1: "cnt Start_won ts \<le> 1" by (simp split: if_splits)
    have LOC: "spawn_local j s' ((ts[i := t'] @ new) ! j)" if "j < length (ts[i := t'] @ new)" for j
      using i that
    proof (cases rule: nth_run)
      case 1
      with n(1) show ?thesis by simp
    next
      case 2
      from tstep_events_other [OF t 2(1)] have ev: "events_of j s' = events_of j s" .
      from loc [OF 2(2)] have l: "spawn_local j s (ts ! j)" .
      have "Start_won (ts ! j) \<and> \<not> spawned (ts ! j) \<longrightarrow> \<not> cmd_Process (proc s')"
      proof (intro impI notI)
        assume w: "Start_won (ts ! j) \<and> \<not> spawned (ts ! j)" and cp: "cmd_Process (proc s')"
        with l have "\<not> cmd_Process (proc s)" by (simp add: spawn_local_def)
        with cp p(2) have "ts ! i = Start_cmd_Start" by blast
        then have "Start_won (ts ! i)" by simp
        with cnt_two [of i ts j Start_won] i 2 w have "2 \<le> cnt Start_won ts" by simp
        with c1 show False by simp
      qed
      with l ev p(1) 2(3) show ?thesis by (simp add: spawn_local_def)
    next
      case 3
      with n(3) have "(ts[i := t'] @ new) ! j = Go_awaitConn" "cmd_Process (proc s')" by blast+
      then show ?thesis by (simp add: spawn_local_def)
    qed
    with n(2) show ?thesis unfolding c' by (simp add: spawn_inv_def)
  qed
qed

lemma cas_spawn_exec:
  "cas_inv ts0 c \<Longrightarrow> spawn_inv c \<Longrightarrow> cas_inv ts0 (exec ls c) \<and> spawn_inv (exec ls c)"
proof (induction ls arbitrary: c)
  case Nil
  then show ?case by simp
next
  case (Cons l ls)
  show ?case
  proof (cases "step l c")
    case None
    with Cons show ?thesis by simp
  next
    case (Some c')
    from Cons.prems Some have "cas_inv ts0 c'" "spawn_inv c'"
      using cas_inv_step spawn_inv_step by blast+
    with Cons.IH Some show ?thesis by simp
  qed
qed

lemma is_call_spawn: "is_call t \<Longrightarrow> spawn_local j (fst (init ts)) t"
  by (cases t) (simp_all add: spawn_local_def init_def NewProc_def events_of_def)

lemma spawn_inv_init:
  assumes "list_all is_call ts"
  shows "spawn_inv (init ts)"
proof -
  from assms have "\<And>j. j < length ts \<Longrightarrow> spawn_local j (fst (init ts)) (ts ! j)"
    by (simp add: list_all_length is_call_spawn)
  then show ?thesis by (simp add: spawn_inv_def spawn_global_def init_def NewProc_def)
qed


subsection \<open>Concurrent calls of Start\<close>


lemma Start_ret_won:
  "Start_sane (Start_ret r) \<Longrightarrow>
     Start_won (Start_ret r) = (r = None \<or> (\<exists>msg. r = Some (OSError msg)))"
  "Start_sane (Start_ret r) \<Longrightarrow> \<not> Start_won (Start_ret r) \<Longrightarrow> r = Some errProcAlreadyRunning"
  by (auto split: option.splits error.splits)

text \<open>
  C2, as the code has it. Any calls are made on a fresh supervisor, in any interleaving,
  with any answers of the operating system. At most one call of \<^verbatim>\<open>Start\<close> ever wins
  the compare-and-swap. When all calls of \<^verbatim>\<open>Start\<close> have returned (and there is at
  least one), exactly one of them is the winner, and what it has returned is what
  \<^verbatim>\<open>cmd.Start\<close> answered to it: either the answer was nil, the winner has launched the
  goroutine and returned nil, and the child is spawned; or the answer was an error, the
  winner has unlocked the mutex and returned that error, no child is spawned and no
  goroutine exists. Every other call has returned \<^verbatim>\<open>errProcAlreadyRunning\<close> and has
  written nothing to the trace. A call that finds the flag set returns
  \<^verbatim>\<open>errProcAlreadyRunning\<close> in its first step, which is always enabled and leaves the
  state as it was. The last two lines are the step of line 146 itself: on the answer
  \<open>msg\<close> the call goes on to unlock and return that error, on the answer nil it sets
  the process handle and goes on to launch the goroutine.
\<close>

theorem Start_one_winner:
  assumes "list_all is_call ts"
  shows "(case exec ls (init ts) of (s, ts') \<Rightarrow>
     cnt Start_won ts' \<le> 1
     \<and> ((\<exists>j. j < length ts \<and> ts ! j = Start_cas)
          \<and> (\<forall>j. j < length ts \<and> ts ! j = Start_cas \<longrightarrow> (\<exists>r. ts' ! j = Start_ret r)) \<longrightarrow>
          (\<exists>j. j < length ts \<and> ts ! j = Start_cas
               \<and> (ts' ! j = Start_ret None \<or> (\<exists>msg. ts' ! j = Start_ret (Some (OSError msg))))
               \<and> (ts' ! j = Start_ret None \<longrightarrow>
                     events_of j s = [EvLock, EvCmdStart None, EvGo]
                     \<and> cmd_Process (proc s) \<and> child s \<noteq> NotSpawned)
               \<and> (\<forall>msg. ts' ! j = Start_ret (Some (OSError msg)) \<longrightarrow>
                     events_of j s = [EvLock, EvCmdStart (Some (OSError msg)), EvUnlock]
                     \<and> \<not> cmd_Process (proc s) \<and> child s = NotSpawned
                     \<and> (\<forall>k. k < length ts' \<longrightarrow> \<not> is_Go (ts' ! k)))
               \<and> (\<forall>k. k < length ts \<and> k \<noteq> j \<and> ts ! k = Start_cas \<longrightarrow>
                     ts' ! k = Start_ret (Some errProcAlreadyRunning)
                     \<and> events_of k s = []))))
   \<and> (\<forall>i r s0. isRunning (proc s0) \<noteq> 0 \<longrightarrow>
         tstep i r s0 Start_cas = Some (s0, Start_ret (Some errProcAlreadyRunning), []))
   \<and> (\<forall>i s0 msg. tstep i (Some msg) s0 Start_cmd_Start
         = Some (emit i (EvCmdStart (Some (OSError msg))) s0, Start_Unlock (OSError msg), []))
   \<and> (\<forall>i s0. tstep i None s0 Start_cmd_Start
         = Some (emit i (EvCmdStart None)
                   (s0\<lparr> proc := (proc s0)\<lparr> cmd_Process := True \<rparr>, child := Alive \<rparr>),
                 Start_go, []))"
proof (intro conjI)
  obtain s ts' where e: "exec ls (init ts) = (s, ts')" by (cases "exec ls (init ts)")
  from cas_spawn_exec [OF cas_inv_init [OF assms] spawn_inv_init [OF assms], of ls] e
  have cas: "cas_inv ts (s, ts')" and sp: "spawn_inv (s, ts')" by simp_all
  from cas have len: "length ts \<le> length ts'"
    and cw: "cnt Start_won ts' \<le> (if isRunning (proc s) = 0 then 0 else 1)"
    and loc: "\<And>j. j < length ts' \<Longrightarrow> cas_local s (ts' ! j)"
    and win: "isRunning (proc s) \<noteq> 0 \<Longrightarrow>
        \<exists>j < length ts. ts ! j = Start_cas \<and> (Start_won (ts' ! j) \<or> ts' ! j = Panicked)"
    by (simp_all add: cas_inv_def)
  from sp have sg: "spawn_global s" and sl: "\<And>j. j < length ts' \<Longrightarrow> spawn_local j s (ts' ! j)"
    by (simp_all add: spawn_inv_def)
  from cw have 1: "cnt Start_won ts' \<le> 1" by (simp split: if_splits)
  have 2: "\<exists>j. j < length ts \<and> ts ! j = Start_cas
               \<and> (ts' ! j = Start_ret None \<or> (\<exists>msg. ts' ! j = Start_ret (Some (OSError msg))))
               \<and> (ts' ! j = Start_ret None \<longrightarrow>
                     events_of j s = [EvLock, EvCmdStart None, EvGo]
                     \<and> cmd_Process (proc s) \<and> child s \<noteq> NotSpawned)
               \<and> (\<forall>msg. ts' ! j = Start_ret (Some (OSError msg)) \<longrightarrow>
                     events_of j s = [EvLock, EvCmdStart (Some (OSError msg)), EvUnlock]
                     \<and> \<not> cmd_Process (proc s) \<and> child s = NotSpawned
                     \<and> (\<forall>k. k < length ts' \<longrightarrow> \<not> is_Go (ts' ! k)))
               \<and> (\<forall>k. k < length ts \<and> k \<noteq> j \<and> ts ! k = Start_cas \<longrightarrow>
                     ts' ! k = Start_ret (Some errProcAlreadyRunning)
                     \<and> events_of k s = [])"
    if ex: "\<exists>j. j < length ts \<and> ts ! j = Start_cas"
      and ret: "\<forall>j. j < length ts \<and> ts ! j = Start_cas \<longrightarrow> (\<exists>r. ts' ! j = Start_ret r)"
  proof -
    from ex obtain j0 where j0: "j0 < length ts" "ts ! j0 = Start_cas" by blast
    with ret obtain r0 where "ts' ! j0 = Start_ret r0" by blast
    with loc [of j0] j0 len have "isRunning (proc s) \<noteq> 0" by (simp add: cas_local_def)
    from win [OF this] obtain j where j: "j < length ts" and cj: "ts ! j = Start_cas"
      and w: "Start_won (ts' ! j) \<or> ts' ! j = Panicked" by blast
    from ret j cj obtain r where r: "ts' ! j = Start_ret r" by blast
    with w have wj: "Start_won (ts' ! j)" by auto
    from j len have jl: "j < length ts'" by simp
    from loc [OF jl] r have "Start_sane (Start_ret r)" by (simp add: cas_local_def)
    from Start_ret_won(1) [OF this] wj r
    have a: "ts' ! j = Start_ret None \<or> (\<exists>msg. ts' ! j = Start_ret (Some (OSError msg)))"
      by auto
    have b: "ts' ! k = Start_ret (Some errProcAlreadyRunning) \<and> events_of k s = []"
      if k: "k < length ts" "k \<noteq> j" "ts ! k = Start_cas" for k
    proof -
      from ret k obtain r' where r': "ts' ! k = Start_ret r'" by blast
      from k len have kl: "k < length ts'" "j \<noteq> k" by simp_all
      from loc [OF kl(1)] r' have sane: "Start_sane (Start_ret r')" by (simp add: cas_local_def)
      have "\<not> Start_won (Start_ret r')"
      proof
        assume "Start_won (Start_ret r')"
        with r' have "Start_won (ts' ! k)" by simp
        with cnt_two [of j ts' k Start_won] jl kl wj have "2 \<le> cnt Start_won ts'" by simp
        with 1 show False by simp
      qed
      from Start_ret_won(2) [OF sane this] r'
      have x: "ts' ! k = Start_ret (Some errProcAlreadyRunning)" by simp
      with sl [OF kl(1)] show ?thesis by (simp add: spawn_local_def)
    qed
    have c: "events_of j s = [EvLock, EvCmdStart None, EvGo]
                     \<and> cmd_Process (proc s) \<and> child s \<noteq> NotSpawned"
      if "ts' ! j = Start_ret None"
      using sl [OF jl] sg that by (simp add: spawn_local_def spawn_global_def)
    have d: "events_of j s = [EvLock, EvCmdStart (Some (OSError msg)), EvUnlock]
                     \<and> \<not> cmd_Process (proc s) \<and> child s = NotSpawned
                     \<and> (\<forall>k. k < length ts' \<longrightarrow> \<not> is_Go (ts' ! k))"
      if x: "ts' ! j = Start_ret (Some (OSError msg))" for msg
    proof -
      from sl [OF jl] x have h: "events_of j s = [EvLock, EvCmdStart (Some (OSError msg)), EvUnlock]"
        and np: "\<not> cmd_Process (proc s)" by (simp_all add: spawn_local_def)
      from np sg have "child s = NotSpawned" by (simp add: spawn_global_def)
      moreover have "\<not> is_Go (ts' ! k)" if "k < length ts'" for k
        using sl [OF that] np by (auto simp: spawn_local_def)
      ultimately show ?thesis using h np by blast
    qed
    from j cj a b c d show ?thesis by blast
  qed
  from 1 2 show "case exec ls (init ts) of (s, ts') \<Rightarrow>
     cnt Start_won ts' \<le> 1
     \<and> ((\<exists>j. j < length ts \<and> ts ! j = Start_cas)
          \<and> (\<forall>j. j < length ts \<and> ts ! j = Start_cas \<longrightarrow> (\<exists>r. ts' ! j = Start_ret r)) \<longrightarrow>
          (\<exists>j. j < length ts \<and> ts ! j = Start_cas
               \<and> (ts' ! j = Start_ret None \<or> (\<exists>msg. ts' ! j = Start_ret (Some (OSError msg))))
               \<and> (ts' ! j = Start_ret None \<longrightarrow>
                     events_of j s = [EvLock, EvCmdStart None, EvGo]
                     \<and> cmd_Process (proc s) \<and> child s \<noteq> NotSpawned)
               \<and> (\<forall>msg. ts' ! j = Start_ret (Some (OSError msg)) \<longrightarrow>
                     events_of j s = [EvLock, EvCmdStart (Some (OSError msg)), EvUnlock]
                     \<and> \<not> cmd_Process (proc s) \<and> child s = NotSpawned
                     \<and> (\<forall>k. k < length ts' \<longrightarrow> \<not> is_Go (ts' ! k)))
               \<and> (\<forall>k. k < length ts \<and> k \<noteq> j \<and> ts ! k = Start_cas \<longrightarrow>
                     ts' ! k = Start_ret (Some errProcAlreadyRunning)
                     \<and> events_of k s = [])))"
    unfolding e case_prod_conv by (intro conjI impI; (elim conjE)?; assumption?) blast+
next
  show "\<forall>i r s0. isRunning (proc s0) \<noteq> 0 \<longrightarrow>
         tstep i r s0 Start_cas = Some (s0, Start_ret (Some errProcAlreadyRunning), [])"
    by (simp add: goto_def)
next
  show "\<forall>i s0 msg. tstep i (Some msg) s0 Start_cmd_Start
         = Some (emit i (EvCmdStart (Some (OSError msg))) s0, Start_Unlock (OSError msg), [])"
    by (simp add: prims')
next
  show "\<forall>i s0. tstep i None s0 Start_cmd_Start
         = Some (emit i (EvCmdStart None)
                   (s0\<lparr> proc := (proc s0)\<lparr> cmd_Process := True \<rparr>, child := Alive \<rparr>),
                 Start_go, [])"
    by (simp add: prims')
qed

text \<open>
  Three concurrent calls. In the first run the third call wins and its spawn succeeds; in
  the second the first call wins and its spawn fails.
\<close>

theorem Start_one_winner_witness:
  "list_all is_call [Start_cas, Start_cas, Start_cas]
   \<and> (case exec [Run 2 None, Run 0 None, Run 2 None, Run 2 None, Run 1 None, Run 2 None]
            (init [Start_cas, Start_cas, Start_cas])
      of (s, ts') \<Rightarrow>
        ts' = [Start_ret (Some errProcAlreadyRunning), Start_ret (Some errProcAlreadyRunning),
               Start_ret None, Go_awaitConn]
        \<and> isRunning (proc s) = 1 \<and> child s = Alive
        \<and> trace s = [(2, EvLock), (2, EvCmdStart None), (2, EvGo)])
   \<and> (case exec [Run 0 None, Run 1 None, Run 0 None, Run 2 None, Run 0 (Some ''exec format error''),
                 Run 0 None]
            (init [Start_cas, Start_cas, Start_cas])
      of (s, ts') \<Rightarrow>
        ts' = [Start_ret (Some (OSError ''exec format error'')),
               Start_ret (Some errProcAlreadyRunning), Start_ret (Some errProcAlreadyRunning)]
        \<and> isRunning (proc s) = 1 \<and> child s = NotSpawned
        \<and> trace s = [(0, EvLock), (0, EvCmdStart (Some (OSError ''exec format error''))),
                     (0, EvUnlock)])"
proof -
  have h: "list_all is_call [Start_cas, Start_cas, Start_cas]" by simp
  from Start_one_winner [OF h, of "[Run 2 None, Run 0 None, Run 2 None, Run 2 None, Run 1 None,
      Run 2 None]"]
  show ?thesis
    by (simp add: init_def NewProc_def prims)
qed

text \<open>
  The claim as the specification states it (exactly one call succeeds in starting a run,
  every other call returns \<^verbatim>\<open>errProcAlreadyRunning\<close>) fails when the spawn fails: of
  two calls, none starts a run, and the first returns the error of the operating system.
\<close>

theorem Start_one_winner_counterexample:
  "(case exec [Run 0 None, Run 1 None, Run 0 None, Run 0 (Some ''no such file or directory''),
               Run 0 None]
          (init [Start_cas, Start_cas])
    of (s, ts') \<Rightarrow>
      ts' = [Start_ret (Some (OSError ''no such file or directory'')),
             Start_ret (Some errProcAlreadyRunning)]
      \<and> Start_ret None \<notin> set ts' \<and> child s = NotSpawned
      \<and> ts' ! 0 \<noteq> Start_ret (Some errProcAlreadyRunning))"
  by (simp add: init_def NewProc_def prims)

subsection \<open>Runs come to an end\<close>

lemma tstep_rank:
  assumes "tstep i r s t = Some (s', t', new)"
  shows "rank t' + sum_list (map rank new) + (if child s' = Alive then 1 else 0)
           < rank t + (if child s = Alive then 1 else 0)"
  using assms
  by (cases t) (auto simp: prims' split: if_splits option.splits once.splits child.splits)

lemma sum_rank_update:
  "i < length ts \<Longrightarrow>
     sum_list (map rank (ts[i := t'])) + rank (ts ! i) = sum_list (map rank ts) + rank t'"
proof (induction ts arbitrary: i)
  case Nil
  then show ?case by simp
next
  case (Cons x xs)
  then show ?case by (cases i) auto
qed

lemma step_steps_left:
  assumes "step l c = Some c'"
  shows "steps_left c' < steps_left c"
proof -
  obtain s ts where c: "c = (s, ts)" by (cases c)
  show ?thesis
  proof (cases l)
    case (ChildExit e)
    with assms c show ?thesis by (auto simp: steps_left_def split: if_splits)
  next
    case (Run i r)
    with assms c obtain s' t' new where
      t: "tstep i r s (ts ! i) = Some (s', t', new)" and c': "c' = (s', ts[i := t'] @ new)"
      and i: "i < length ts"
      by (auto split: if_splits option.splits)
    from tstep_rank [OF t] sum_rank_update [OF i, of t'] c c' show ?thesis
      by (simp add: steps_left_def split: if_splits)
  qed
qed

lemma reach_quiescent: "\<exists>ls. quiescent (exec ls c)"
proof (induction "steps_left c" arbitrary: c rule: less_induct)
  case less
  show ?case
  proof (cases "quiescent c")
    case True
    then have "quiescent (exec [] c)" by simp
    then show ?thesis by blast
  next
    case False
    then obtain l c' where st: "step l c = Some c'" by (auto simp: quiescent_iff)
    from less [OF step_steps_left [OF st]] obtain ls where "quiescent (exec ls c')" by blast
    with st have "quiescent (exec (l # ls) c)" by simp
    then show ?thesis by blast
  qed
qed

subsection \<open>The mutex of a started supervisor\<close>

lemma no_panic:
  assumes "tstep i r s t = Some (s', t', new)" and "fault s = None"
    and "holding t \<or> t = Go_Unlock \<longrightarrow> waitMx (proc s)"
    and "before_close t \<longrightarrow> \<not> ch_closed (connCh (proc s))"
    and "pre_Unlock t \<and> t \<noteq> Go_awaitConn \<longrightarrow> conn (proc s) \<noteq> None \<and> rpcGW (proc s) \<noteq> None"
    and "caller_shape G t \<or> pre_Unlock t \<or> post_Unlock t"
  shows "fault s' = None \<and> t' \<noteq> Panicked"
  using assms
  by (cases t) (auto simp: prims' split: if_splits option.splits once.splits child.splits)

lemma lock_moves:
  assumes "tstep i r s t = Some (s', t', new)" and "caller_shape G t"
    and "holding t \<longrightarrow> waitMx (proc s)"
  shows "(if holding t' then 1 else 0) + (if waitMx (proc s) then 1 else (0::nat))
           = (if holding t then 1 else 0) + (if waitMx (proc s') then 1 else 0)"
  using assms
  by (cases t) (auto simp: prims' split: if_splits option.splits once.splits)

lemma Go_lock:
  assumes "tstep i r s G = Some (s', G', new)" and "pre_Unlock G \<or> post_Unlock G"
  shows "\<not> holding G \<and> \<not> holding G'
       \<and> (post_Unlock G \<longrightarrow> waitMx (proc s') = waitMx (proc s))
       \<and> (pre_Unlock G \<and> post_Unlock G' \<longrightarrow> \<not> waitMx (proc s'))"
  using assms
  by (cases G) (auto simp: prims' split: if_splits option.splits child.splits)

lemma is_Wait_next:
  assumes "tstep i r s t = Some (s', t', new)" and "is_Wait t"
  shows "is_Wait t' \<or> t' = Panicked"
  using assms
  by (cases t) (auto simp: prims' split: if_splits)

lemma holding_shape: "caller_shape G t \<Longrightarrow> holding t \<Longrightarrow> post_Unlock G"
  by (cases t) simp_all

lemma mutex_inv_step:
  assumes st: "started_inv c" and on: "once_inv ts0 c" and mx: "mutex_inv ts0 c"
    and step: "step l c = Some c'"
  shows "mutex_inv ts0 c'"
proof -
  obtain s ts where c: "c = (s, ts)" by (cases c)
  from st c have len: "1 < length ts" and G: "Go_inv s (ts ! 1)"
    and T: "\<And>j. j < length ts \<Longrightarrow> j \<noteq> 1 \<Longrightarrow> caller_inv s (ts ! 1) (ts ! j)"
    by (simp_all add: started_inv_def)
  from on c have loc: "\<And>j. j < length ts \<Longrightarrow> once_local s (ts ! j)"
    by (simp add: once_inv_def)
  from mx c have f: "fault s = None" and l0: "length ts0 \<le> length ts"
    and np: "\<And>j. j < length ts \<Longrightarrow> ts ! j \<noteq> Panicked"
    and cn: "post_Unlock (ts ! 1) \<Longrightarrow> cnt holding ts = (if waitMx (proc s) then 1 else 0)"
    and w: "\<And>j. j < length ts0 \<Longrightarrow> ts0 ! j = Wait_load \<Longrightarrow> is_Wait (ts ! j)"
    by (simp_all add: mutex_inv_def)
  from G have v: "pre_Unlock (ts ! 1) \<or> post_Unlock (ts ! 1)" by (simp add: Go_inv_def)
  show ?thesis
  proof (cases l)
    case (ChildExit e)
    with step c have c': "c' = (s\<lparr> child := Exited (os_error e) \<rparr>, ts)"
      by (auto split: if_splits)
    with mx c show ?thesis by (simp add: mutex_inv_def)
  next
    case (Run i r)
    with step c obtain s' t' new where
      t: "tstep i r s (ts ! i) = Some (s', t', new)" and c': "c' = (s', ts[i := t'] @ new)"
      and i: "i < length ts"
      by (auto split: if_splits option.splits)
    have hold: "waitMx (proc s)" if "holding (ts ! i)"
    proof -
      from that v have i1: "i \<noteq> 1" by (cases "ts ! 1") auto
      from T [OF i i1] have "caller_shape (ts ! 1) (ts ! i)" by (simp add: caller_inv_def)
      from holding_shape [OF this that] have "post_Unlock (ts ! 1)" .
      from cn [OF this] cnt_ge_one [OF i, of holding] that show ?thesis
        by (simp split: if_splits)
    qed
    have new: "new = []"
    proof (cases "i = 1")
      case True
      with Go_step [OF t [unfolded True] G] show ?thesis by simp
    next
      case False
      with caller_step [OF t False G T [OF i False]] show ?thesis by simp
    qed
    have sh: "caller_shape (ts ! 1) (ts ! i) \<or> pre_Unlock (ts ! i) \<or> post_Unlock (ts ! i)"
    proof (cases "i = 1")
      case True
      with v show ?thesis by simp
    next
      case False
      with T [OF i False] show ?thesis by (simp add: caller_inv_def)
    qed
    have a1: "holding (ts ! i) \<or> ts ! i = Go_Unlock \<longrightarrow> waitMx (proc s)"
    proof (intro impI, elim disjE)
      assume "holding (ts ! i)" then show "waitMx (proc s)" by (rule hold)
    next
      assume g: "ts ! i = Go_Unlock"
      have "i = 1"
      proof (rule ccontr)
        assume "i \<noteq> 1"
        from T [OF i this] g show False by (simp add: caller_inv_def)
      qed
      with G g show "waitMx (proc s)" by (simp add: Go_inv_def)
    qed
    have a2: "before_close (ts ! i) \<longrightarrow> \<not> ch_closed (connCh (proc s))"
      using loc [OF i] by (simp add: once_local_def)
    have a3: "pre_Unlock (ts ! i) \<and> ts ! i \<noteq> Go_awaitConn \<longrightarrow>
        conn (proc s) \<noteq> None \<and> rpcGW (proc s) \<noteq> None"
    proof (intro impI, elim conjE)
      assume p: "pre_Unlock (ts ! i)" and na: "ts ! i \<noteq> Go_awaitConn"
      have "i = 1"
      proof (rule ccontr)
        assume "i \<noteq> 1"
        from T [OF i this] p show False by (cases "ts ! i") (simp_all add: caller_inv_def)
      qed
      with G na show "conn (proc s) \<noteq> None \<and> rpcGW (proc s) \<noteq> None" by (simp add: Go_inv_def)
    qed
    from no_panic [OF t f a1 a2 a3 sh] have f': "fault s' = None" and p': "t' \<noteq> Panicked"
      by simp_all
    have b: "(ts[i := t']) ! j \<noteq> Panicked" if "j < length ts" for j
      using np [OF that] p' i by (cases "j = i") simp_all
    have d: "is_Wait ((ts[i := t']) ! j)" if j: "j < length ts0" and wl: "ts0 ! j = Wait_load" for j
    proof (cases "j = i")
      case True
      with is_Wait_next [OF t] w [OF j wl] p' i show ?thesis by simp
    next
      case False
      with w [OF j wl] show ?thesis by simp
    qed
    have e: "cnt holding (ts[i := t']) = (if waitMx (proc s') then 1 else 0)"
      if po: "post_Unlock ((ts[i := t']) ! 1)"
    proof (cases "i = 1")
      case True
      note gl = Go_lock [OF t [unfolded True] v]
      from True po len have po': "post_Unlock t'" by simp
      from cnt_update [OF i, of holding t'] gl True
      have eq: "cnt holding (ts[i := t']) = cnt holding ts" by simp
      show ?thesis
      proof (cases "post_Unlock (ts ! 1)")
        case True
        with cn gl eq show ?thesis by simp
      next
        case False
        with v have pre: "pre_Unlock (ts ! 1)" by simp
        have "cnt holding ts = 0"
        proof (rule cnt_none)
          fix x assume "x \<in> set ts"
          then obtain j where j: "j < length ts" "ts ! j = x" by (auto simp: in_set_conv_nth)
          show "\<not> holding x"
          proof (cases "j = 1")
            case True
            with gl j \<open>i = 1\<close> show ?thesis by simp
          next
            case jf: False
            from T [OF j(1) jf] have "caller_shape (ts ! 1) x" using j by (simp add: caller_inv_def)
            with holding_shape [OF this] False show ?thesis by blast
          qed
        qed
        with eq gl pre po' show ?thesis by simp
      qed
    next
      case False
      with po i have po1: "post_Unlock (ts ! 1)" by simp
      from T [OF i False] have csh: "caller_shape (ts ! 1) (ts ! i)" by (simp add: caller_inv_def)
      have "holding (ts ! i) \<longrightarrow> waitMx (proc s)" using hold by blast
      from lock_moves [OF t csh this] cnt_update [OF i, of holding t'] cn [OF po1]
      show ?thesis by (simp split: if_splits)
    qed
    from f' b d e l0 new c' show ?thesis by (simp add: mutex_inv_def)
  qed
qed

lemma live_exec:
  "started_inv c \<Longrightarrow> once_inv ts0 c \<Longrightarrow> once_used ts0 c \<Longrightarrow> mutex_inv ts0 c \<Longrightarrow>
     started_inv (exec ls c) \<and> once_inv ts0 (exec ls c) \<and> once_used ts0 (exec ls c)
     \<and> mutex_inv ts0 (exec ls c)"
proof (induction ls arbitrary: c)
  case Nil
  then show ?case by simp
next
  case (Cons l ls)
  show ?case
  proof (cases "step l c")
    case None
    with Cons show ?thesis by simp
  next
    case (Some c')
    from Cons.prems Some have "started_inv c'" "once_inv ts0 c'" "once_used ts0 c'"
      "mutex_inv ts0 c'"
      using started_inv_step once_inv_step once_used_step mutex_inv_step by blast+
    with Cons.IH Some show ?thesis by simp
  qed
qed

lemma started_nth:
  assumes "list_all is_call ts" and "j < length (Start_ret None # Go_awaitConn # ts)"
  shows "j = 0 \<or> j = 1 \<or> is_call ((Start_ret None # Go_awaitConn # ts) ! j)"
proof (cases j)
  case 0
  then show ?thesis by simp
next
  case (Suc k)
  show ?thesis
  proof (cases k)
    case 0
    with Suc show ?thesis by simp
  next
    case (Suc m)
    with \<open>j = Suc k\<close> assms(2) have "m < length ts" by simp
    with assms(1) have "is_call (ts ! m)" by (simp add: list_all_length)
    with Suc \<open>j = Suc k\<close> show ?thesis by simp
  qed
qed

lemma started_facts:
  assumes "list_all is_call ts" and "x \<in> set (Start_ret None # Go_awaitConn # ts)"
  shows "\<not> in_Do x \<and> \<not> InjectConn_won x \<and> (is_Stop x \<longrightarrow> x = Stop_load)
     \<and> once_local s x \<and> inj_rel s x x \<and> \<not> holding x \<and> x \<noteq> Panicked"
proof -
  from assms have "x = Start_ret None \<or> x = Go_awaitConn \<or> is_call x"
    by (auto simp: list_all_iff)
  then show ?thesis by (cases x) (auto simp: once_local_def)
qed

lemma once_inv_started:
  assumes "list_all is_call ts"
  shows "once_inv (Start_ret None # Go_awaitConn # ts) (started ts)"
proof -
  let ?ts = "Start_ret None # Go_awaitConn # ts"
  note sf = started_facts [OF assms]
  have f: "\<And>j s. j < length ?ts \<Longrightarrow> once_local s (?ts ! j) \<and> inj_rel s (?ts ! j) (?ts ! j)"
    using sf nth_mem by blast
  have 1: "cnt in_Do ?ts = 0" "cnt InjectConn_won ?ts = 0"
    using sf by (auto intro!: cnt_none)
  have 2: "\<not> is_Stop (?ts ! j)" if "Stop_load \<notin> set ?ts" "j < length ?ts" for j
  proof
    assume "is_Stop (?ts ! j)"
    with sf [OF nth_mem [OF that(2)]] have "?ts ! j = Stop_load" by blast
    with that show False by (metis nth_mem)
  qed
  have g: "once_global \<lparr> proc = NewProc\<lparr> cmd_Process := True, isRunning := 1, waitMx := True \<rparr>,
        child = Alive, trace = [(0, EvLock), (0, EvCmdStart None), (0, EvGo)], fault = None \<rparr>"
    by (simp add: NewProc_def once_global_def chan_fault_def sends_def closes_def order_ok_def)
  show ?thesis
    unfolding started_eq once_inv_def case_prod_conv
    using 1 2 f g by (simp add: NewProc_def)
qed

lemma once_used_started: "once_used (Start_ret None # Go_awaitConn # ts) (started ts)"
  by (simp add: once_used_def started_eq NewProc_def)

lemma mutex_inv_started:
  assumes "list_all is_call ts"
  shows "mutex_inv (Start_ret None # Go_awaitConn # ts) (started ts)"
proof -
  let ?ts = "Start_ret None # Go_awaitConn # ts"
  note sf = started_facts [OF assms]
  have "\<And>j. j < length ?ts \<Longrightarrow> ?ts ! j \<noteq> Panicked" using sf nth_mem by blast
  moreover have "\<And>j. j < length ?ts \<Longrightarrow> ?ts ! j = Wait_load \<Longrightarrow> is_Wait (?ts ! j)" by simp
  ultimately show ?thesis
    unfolding started_eq mutex_inv_def case_prod_conv by simp
qed

text \<open>
  The end of a run of a started supervisor on which \<^verbatim>\<open>InjectConn\<close> is called: the child
  has exited, the goroutine has returned, and every call of \<^verbatim>\<open>Wait\<close> has returned the
  error of the exit.
\<close>

lemma started_quiescent:
  assumes sv: "started_inv (s, ts')" and on: "once_inv ts0 (s, ts')"
    and us: "once_used ts0 (s, ts')" and mx: "mutex_inv ts0 (s, ts')"
    and q: "quiescent (s, ts')"
    and k: "k < length ts0" and ck: "ts0 ! k = InjectConn_once c"
  shows "child s = Exited (waitErr (proc s)) \<and> ts' ! 1 = Go_ret \<and> \<not> waitMx (proc s)
       \<and> (\<exists>j c'. j < length ts0 \<and> ts0 ! j = InjectConn_once c'
             \<and> ts' ! j = InjectConn_ret True \<and> conn (proc s) = Some c')
       \<and> (\<forall>j. j < length ts0 \<and> ts0 ! j = Wait_load \<longrightarrow> ts' ! j = Wait_ret (waitErr (proc s)))"
proof -
  from sv have len: "1 < length ts'" and G: "Go_inv s (ts' ! 1)"
    and T: "\<And>j. j < length ts' \<Longrightarrow> j \<noteq> 1 \<Longrightarrow> caller_inv s (ts' ! 1) (ts' ! j)"
    by (simp_all add: started_inv_def)
  from mx have f: "fault s = None" and l0: "length ts0 \<le> length ts'"
    and np: "\<And>j. j < length ts' \<Longrightarrow> ts' ! j \<noteq> Panicked"
    and cn: "post_Unlock (ts' ! 1) \<Longrightarrow> cnt holding ts' = (if waitMx (proc s) then 1 else 0)"
    and w: "\<And>j. j < length ts0 \<Longrightarrow> ts0 ! j = Wait_load \<Longrightarrow> is_Wait (ts' ! j)"
    by (simp_all add: mutex_inv_def)
  from on have loc: "\<And>j. j < length ts' \<Longrightarrow> once_local s (ts' ! j)"
    and rel: "\<And>j. j < length ts0 \<Longrightarrow> inj_rel s (ts0 ! j) (ts' ! j)"
    by (simp_all add: once_inv_def)
  note bl = blocked [OF quiescent_tstep [OF q f, of _ None]]
  from k l0 have kl: "k < length ts'" by simp
  from quiescent_InjectConn [OF on q f k ck] obtain b where b: "ts' ! k = InjectConn_ret b"
    by blast
  with loc [OF kl] have dn: "connOnce (proc s) = OnceDone" by (cases b) (simp_all add: once_local_def)
  with us have cl: "ch_closed (connCh (proc s))" by (simp add: once_used_def)
  from q have "step (ChildExit None) (s, ts') = None" by (simp add: quiescent_iff)
  with f have na: "child s \<noteq> Alive" by (simp split: if_splits)
  with G obtain e where ex: "child s = Exited e" by (cases "child s") (auto simp: Go_inv_def)
  from G have v: "pre_Unlock (ts' ! 1) \<or> post_Unlock (ts' ! 1)" by (simp add: Go_inv_def)
  from bl [OF len] cl ex v have gr: "ts' ! 1 = Go_ret" by auto
  with G have ce: "child s = Exited (waitErr (proc s))" and cc: "conn (proc s) \<noteq> None"
    by (simp_all add: Go_inv_def)
  have nl: "\<not> waitMx (proc s)"
  proof
    assume "waitMx (proc s)"
    with cn gr have "0 < cnt holding ts'" by simp
    then obtain j where j: "j < length ts'" and h: "holding (ts' ! j)" using cnt_pos by blast
    from bl [OF j] h show False by auto
  qed
  have wr: "ts' ! j = Wait_ret (waitErr (proc s))" if j: "j < length ts0" "ts0 ! j = Wait_load" for j
  proof -
    from j l0 have jl: "j < length ts'" by simp
    from w [OF j] have iw: "is_Wait (ts' ! j)" .
    with gr have j1: "j \<noteq> 1" by auto
    from bl [OF jl] iw nl obtain r where r: "ts' ! j = Wait_ret r" by (cases "ts' ! j") auto
    with T [OF jl j1] show ?thesis by (simp add: caller_inv_def)
  qed
  have iw: "\<exists>j c'. j < length ts0 \<and> ts0 ! j = InjectConn_once c'
             \<and> ts' ! j = InjectConn_ret True \<and> conn (proc s) = Some c'"
  proof -
    from us dn cc obtain j c' where j: "j < length ts0" "ts0 ! j = InjectConn_once c'"
      and wj: "InjectConn_won (ts' ! j)"
      by (auto simp: once_used_def)
    from quiescent_InjectConn [OF on q f j] obtain b' where "ts' ! j = InjectConn_ret b'"
      by blast
    with wj have t: "ts' ! j = InjectConn_ret True" by simp
    with rel [OF j(1)] j(2) have "conn (proc s) = Some c'" by simp
    with j t show ?thesis by blast
  qed
  from ce gr nl iw wr show ?thesis by blast
qed

subsection \<open>What Wait returns\<close>

lemma started_index:
  assumes "j < length (Start_ret None # Go_awaitConn # ts)"
    and "(Start_ret None # Go_awaitConn # ts) ! j = InjectConn_once c"
  obtains m where "j = m + 2" and "m < length ts" and "ts ! m = InjectConn_once c"
proof (cases j)
  case 0
  with assms show ?thesis by simp
next
  case (Suc k)
  show ?thesis
  proof (cases k)
    case 0
    with Suc assms show ?thesis by simp
  next
    case (Suc m)
    with \<open>j = Suc k\<close> assms that [of m] show ?thesis by simp
  qed
qed

text \<open>
  C6. \<^verbatim>\<open>Start\<close> has returned nil, and any calls are made afterwards, in any
  interleaving. Whenever a call of \<^verbatim>\<open>Wait\<close> has returned \<open>r\<close>, the child has exited
  with exactly \<open>r\<close> (nil for a clean exit), the goroutine has seen that exit in
  \<^verbatim>\<open>cmd.Wait\<close>, and a connection had been injected: \<^verbatim>\<open>Wait\<close> does not return
  while the child is alive. Nothing panics. Every step that is taken brings the run
  nearer to its end (\<open>steps_left\<close> goes down), so no run goes on for ever, and from
  every configuration a run to the end exists. At the end of a run (no thread can take a
  step and the child is not alive), if a call of \<^verbatim>\<open>InjectConn\<close> was among the calls:
  the goroutine has returned, the child has exited with the error that is stored in
  \<^verbatim>\<open>waitErr\<close>, the mutex is free, a call of \<^verbatim>\<open>InjectConn\<close> has returned true and
  its connection is stored, and every call of \<^verbatim>\<open>Wait\<close> has returned that error. So
  no call of \<^verbatim>\<open>Wait\<close> is left blocked once the child has exited. The last two lines
  are two runs: with the connection injected and the child still alive, the \<^verbatim>\<open>Lock\<close>
  of \<^verbatim>\<open>Wait\<close> is not enabled; and the run to the end, the child exiting with \<open>e\<close>,
  gives \<open>Wait_ret (os_error e)\<close>.
\<close>

theorem Wait_returns_exit_error:
  assumes "list_all is_call ts"
  shows "(case exec ls (started ts) of (s, ts') \<Rightarrow>
           (\<forall>j r. j < length ts' \<and> ts' ! j = Wait_ret r \<longrightarrow>
             child s = Exited r \<and> EvCmdWait r \<in> set (events_of 1 s) \<and> conn (proc s) \<noteq> None)
           \<and> fault s = None
           \<and> (\<forall>l c'. step l (s, ts') = Some c' \<longrightarrow> steps_left c' < steps_left (s, ts'))
           \<and> (\<exists>ls'. quiescent (exec ls' (s, ts')))
           \<and> (quiescent (s, ts') \<and> (\<exists>j c. j < length ts \<and> ts ! j = InjectConn_once c) \<longrightarrow>
                ts' ! 1 = Go_ret \<and> child s = Exited (waitErr (proc s)) \<and> \<not> waitMx (proc s)
                \<and> (\<exists>j c. j < length ts \<and> ts ! j = InjectConn_once c
                      \<and> ts' ! (j + 2) = InjectConn_ret True \<and> conn (proc s) = Some c)
                \<and> (\<forall>j. j < length ts \<and> ts ! j = Wait_load \<longrightarrow>
                      ts' ! (j + 2) = Wait_ret (waitErr (proc s)))))
       \<and> step (Run 3 r3)
            (exec [Run 2 r0, Run 2 r0, Run 2 r0, Run 2 r0, Run 2 r0, Run 3 r0,
                   Run 1 r0, Run 1 r0, Run 1 r0, Run 1 r0]
               (started [InjectConn_once c, Wait_load])) = None
       \<and> snd (exec [Run 2 r0, Run 2 r0, Run 2 r0, Run 2 r0, Run 2 r0, Run 3 r0,
                     Run 1 r0, Run 1 r0, Run 1 r0, ChildExit e,
                     Run 1 r0, Run 1 r1, Run 1 r0, Run 1 r0, Run 1 r0, Run 1 r0,
                     Run 3 r0, Run 3 r0, Run 3 r0]
                 (started [InjectConn_once c, Wait_load]))
           = [Start_ret None, Go_ret, InjectConn_ret True, Wait_ret (os_error e)]"
proof (intro conjI)
  let ?ts0 = "Start_ret None # Go_awaitConn # ts"
  obtain s ts' where e: "exec ls (started ts) = (s, ts')" by (cases "exec ls (started ts)")
  from live_exec [OF started_inv_started [OF assms] once_inv_started [OF assms]
      once_used_started mutex_inv_started [OF assms], of ls] e
  have sv: "started_inv (s, ts')" and on: "once_inv ?ts0 (s, ts')"
    and us: "once_used ?ts0 (s, ts')" and mx: "mutex_inv ?ts0 (s, ts')"
    by simp_all
  from sv have G: "Go_inv s (ts' ! 1)"
    and T: "\<And>j. j < length ts' \<Longrightarrow> j \<noteq> 1 \<Longrightarrow> caller_inv s (ts' ! 1) (ts' ! j)"
    by (simp_all add: started_inv_def)
  have 1: "\<forall>j r. j < length ts' \<and> ts' ! j = Wait_ret r \<longrightarrow>
          child s = Exited r \<and> EvCmdWait r \<in> set (events_of 1 s) \<and> conn (proc s) \<noteq> None"
  proof (intro allI impI, elim conjE)
    fix j r assume j: "j < length ts'" and w: "ts' ! j = Wait_ret r"
    from G have v: "pre_Unlock (ts' ! 1) \<or> post_Unlock (ts' ! 1)" by (simp add: Go_inv_def)
    with w have "j \<noteq> 1" by auto
    from T [OF j this] w have p: "post_Unlock (ts' ! 1)" and r: "r = waitErr (proc s)"
      by (simp_all add: caller_inv_def)
    from p have nw: "\<not> pre_Wait (ts' ! 1)" by (rule post_Unlock_not_pre_Wait)
    from p have na: "ts' ! 1 \<noteq> Go_awaitConn" by auto
    from G obtain r' where h: "events_of 1 s = Go_history (waitErr (proc s)) r' (ts' ! 1)"
      by (auto simp: Go_inv_def)
    from G nw na r have "child s = Exited r" "conn (proc s) \<noteq> None"
      by (simp_all add: Go_inv_def)
    moreover from Go_history_CmdWait [OF v nw] h r have "EvCmdWait r \<in> set (events_of 1 s)"
      by simp
    ultimately show "child s = Exited r \<and> EvCmdWait r \<in> set (events_of 1 s)
        \<and> conn (proc s) \<noteq> None" by simp
  qed
  from mx have 2: "fault s = None" by (simp add: mutex_inv_def)
  have 3: "\<forall>l c'. step l (s, ts') = Some c' \<longrightarrow> steps_left c' < steps_left (s, ts')"
    using step_steps_left by blast
  have 4: "\<exists>ls'. quiescent (exec ls' (s, ts'))" by (rule reach_quiescent)
  have 5: "ts' ! 1 = Go_ret \<and> child s = Exited (waitErr (proc s)) \<and> \<not> waitMx (proc s)
                \<and> (\<exists>j c. j < length ts \<and> ts ! j = InjectConn_once c
                      \<and> ts' ! (j + 2) = InjectConn_ret True \<and> conn (proc s) = Some c)
                \<and> (\<forall>j. j < length ts \<and> ts ! j = Wait_load \<longrightarrow>
                      ts' ! (j + 2) = Wait_ret (waitErr (proc s)))"
    if q: "quiescent (s, ts')" and ex: "\<exists>j c. j < length ts \<and> ts ! j = InjectConn_once c"
  proof -
    from ex obtain k c0 where k: "k < length ts" "ts ! k = InjectConn_once c0" by blast
    then have k2: "k + 2 < length ?ts0" "?ts0 ! (k + 2) = InjectConn_once c0" by simp_all
    note sq = started_quiescent [OF sv on us mx q k2]
    from sq obtain j c' where j: "j < length ?ts0" "?ts0 ! j = InjectConn_once c'"
      and t: "ts' ! j = InjectConn_ret True" "conn (proc s) = Some c'" by blast
    from started_index [OF j] obtain m where "j = m + 2" "m < length ts"
      "ts ! m = InjectConn_once c'" by blast
    with t have a: "\<exists>j c. j < length ts \<and> ts ! j = InjectConn_once c
                      \<and> ts' ! (j + 2) = InjectConn_ret True \<and> conn (proc s) = Some c"
      by blast
    have b: "ts' ! (j + 2) = Wait_ret (waitErr (proc s))"
      if "j < length ts" "ts ! j = Wait_load" for j
    proof -
      from that have "j + 2 < length ?ts0 \<and> ?ts0 ! (j + 2) = Wait_load" by simp
      with sq show ?thesis by blast
    qed
    from sq a b show ?thesis by blast
  qed
  then have 6: "quiescent (s, ts') \<and> (\<exists>j c. j < length ts \<and> ts ! j = InjectConn_once c) \<longrightarrow>
                ts' ! 1 = Go_ret \<and> child s = Exited (waitErr (proc s)) \<and> \<not> waitMx (proc s)
                \<and> (\<exists>j c. j < length ts \<and> ts ! j = InjectConn_once c
                      \<and> ts' ! (j + 2) = InjectConn_ret True \<and> conn (proc s) = Some c)
                \<and> (\<forall>j. j < length ts \<and> ts ! j = Wait_load \<longrightarrow>
                      ts' ! (j + 2) = Wait_ret (waitErr (proc s)))"
    by blast
  note all = conjI [OF 1 conjI [OF 2 conjI [OF 3 conjI [OF 4 6]]]]
  show "case exec ls (started ts) of (s, ts') \<Rightarrow>
           (\<forall>j r. j < length ts' \<and> ts' ! j = Wait_ret r \<longrightarrow>
             child s = Exited r \<and> EvCmdWait r \<in> set (events_of 1 s) \<and> conn (proc s) \<noteq> None)
           \<and> fault s = None
           \<and> (\<forall>l c'. step l (s, ts') = Some c' \<longrightarrow> steps_left c' < steps_left (s, ts'))
           \<and> (\<exists>ls'. quiescent (exec ls' (s, ts')))
           \<and> (quiescent (s, ts') \<and> (\<exists>j c. j < length ts \<and> ts ! j = InjectConn_once c) \<longrightarrow>
                ts' ! 1 = Go_ret \<and> child s = Exited (waitErr (proc s)) \<and> \<not> waitMx (proc s)
                \<and> (\<exists>j c. j < length ts \<and> ts ! j = InjectConn_once c
                      \<and> ts' ! (j + 2) = InjectConn_ret True \<and> conn (proc s) = Some c)
                \<and> (\<forall>j. j < length ts \<and> ts ! j = Wait_load \<longrightarrow>
                      ts' ! (j + 2) = Wait_ret (waitErr (proc s))))"
    unfolding e case_prod_conv by (rule all)
next
  show "step (Run 3 r3)
            (exec [Run 2 r0, Run 2 r0, Run 2 r0, Run 2 r0, Run 2 r0, Run 3 r0,
                   Run 1 r0, Run 1 r0, Run 1 r0, Run 1 r0]
               (started [InjectConn_once c, Wait_load])) = None"
    by (simp add: started_eq NewProc_def prims)
next
  show "snd (exec [Run 2 r0, Run 2 r0, Run 2 r0, Run 2 r0, Run 2 r0, Run 3 r0,
                     Run 1 r0, Run 1 r0, Run 1 r0, ChildExit e,
                     Run 1 r0, Run 1 r1, Run 1 r0, Run 1 r0, Run 1 r0, Run 1 r0,
                     Run 3 r0, Run 3 r0, Run 3 r0]
                 (started [InjectConn_once c, Wait_load]))
           = [Start_ret None, Go_ret, InjectConn_ret True, Wait_ret (os_error e)]"
    by (simp add: started_eq NewProc_def prims)
qed

text \<open>
  A whole run with two calls of \<^verbatim>\<open>Wait\<close>, one made before the exit and one after: the
  connection is injected, the child exits with status 2, the goroutine cleans up, and
  both calls return that error. The run has come to an end.
\<close>

theorem Wait_returns_exit_error_witness:
  "list_all is_call [InjectConn_once 7, Wait_load, Wait_load]
   \<and> (case exec [Run 2 None, Run 2 None, Run 2 None, Run 2 None, Run 2 None, Run 3 None,
                 Run 3 None, Run 1 None, Run 1 None, Run 1 None, Run 3 None,
                 ChildExit (Some ''exit status 2''),
                 Run 1 None, Run 1 None, Run 1 None, Run 1 None, Run 1 None, Run 1 None,
                 Run 3 None, Run 4 None, Run 4 None, Run 3 None, Run 3 None, Run 4 None,
                 Run 4 None, Run 4 None]
            (started [InjectConn_once 7, Wait_load, Wait_load])
      of (s, ts') \<Rightarrow>
        quiescent (s, ts')
        \<and> ts' = [Start_ret None, Go_ret, InjectConn_ret True,
                 Wait_ret (Some (OSError ''exit status 2'')),
                 Wait_ret (Some (OSError ''exit status 2''))]
        \<and> child s = Exited (Some (OSError ''exit status 2'')) \<and> fault s = None)"
proof -
  have h: "list_all is_call [InjectConn_once 7, Wait_load, Wait_load]" by simp
  from Wait_returns_exit_error [OF h, of "[Run 2 None, Run 2 None, Run 2 None, Run 2 None,
                 Run 2 None, Run 3 None,
                 Run 3 None, Run 1 None, Run 1 None, Run 1 None, Run 3 None,
                 ChildExit (Some ''exit status 2''),
                 Run 1 None, Run 1 None, Run 1 None, Run 1 None, Run 1 None, Run 1 None,
                 Run 3 None, Run 4 None, Run 4 None, Run 3 None, Run 3 None, Run 4 None,
                 Run 4 None, Run 4 None]"]
  show ?thesis
    by (simp add: started_eq NewProc_def prims close_unexpected_def quiescent_def)
qed

end
